theory Spec2Isabelle
  imports Main
begin

section \<open>The offline synchronisation engine of the note-taking application\<close>

text \<open>
  This theory embeds \<^verbatim>\<open>frontend/src/lib/sync.js\<close> (the queue of pending mutations,
  \<^verbatim>\<open>triggerSync\<close>, \<^verbatim>\<open>syncFromServer\<close>, \<^verbatim>\<open>addToSyncQueue\<close>), the two Dexie tables
  of \<^verbatim>\<open>frontend/src/lib/db.js\<close> it works on, and the \<^verbatim>\<open>POST /sync\<close> handler of the
  backend, which takes the last-write-wins decision the client reacts to, behind the
  \<^verbatim>\<open>sanitizeBody\<close> middleware that \<^verbatim>\<open>backend/server.js\<close> puts in front of every route.

  Dates are their millisecond values (\<open>int\<close>). An absent, \<^verbatim>\<open>null\<close> or \<^verbatim>\<open>undefined\<close>
  property is \<open>None\<close>.
\<close>

subsection \<open>Data\<close>

type_synonym time = int

text \<open>
  The \<^verbatim>\<open>data\<close> object of a queue entry, which is also one element of the \<^verbatim>\<open>notes\<close>
  array sent to \<^verbatim>\<open>POST /notes/sync\<close>: \<^verbatim>\<open>{ id, title, content, lastModified }\<close>.
  Every caller of \<^verbatim>\<open>addToSyncQueue\<close> passes an object literal; \<^verbatim>\<open>id\<close> is the server
  identity of the note, absent in a create.
\<close>

record payload =
  p_id :: "string option"
  p_title :: string
  p_content :: string
  p_lastModified :: "time option"

text \<open>
  The \<^verbatim>\<open>noteId\<close> of a queue entry is \<^verbatim>\<open>note.serverId || note.id\<close> for an update (a
  server identity, a string, or else the local auto-increment key, a number), \<^verbatim>\<open>null\<close>
  for a create.
\<close>

datatype noteKey = LocalKey nat | ServerKey string

text \<open>
  A row of \<^verbatim>\<open>db.syncQueue\<close> (\<^verbatim>\<open>'++id, noteId, action, data, timestamp, retries'\<close>).
\<close>

record entry =
  e_id :: nat
  noteId :: "noteKey option"
  action :: string
  data :: payload
  timestamp :: time
  retries :: nat

text \<open>JavaScript truthiness of a string-valued property: present and not empty.\<close>

definition truthy :: "string option \<Rightarrow> bool" where
  "truthy s = (case s of None \<Rightarrow> False | Some v \<Rightarrow> v \<noteq> [])"

subsection \<open>Collapsing the queue (\<^verbatim>\<open>triggerSync\<close>, lines 78 to 104)\<close>

text \<open>
  \<^verbatim>\<open>queue.filter((q) => q.noteId === item.noteId && q.action !== 'delete')
       .sort((a, b) => b.timestamp - a.timestamp)[0]\<close>:
  \<^verbatim>\<open>Array.prototype.sort\<close> is stable, and so is \<open>sort_key\<close>; the comparator orders by
  descending timestamp, which is ascending \<open>- timestamp\<close>. Element \<open>0\<close> of an empty
  array is \<^verbatim>\<open>undefined\<close>.
\<close>

definition latest :: "entry list \<Rightarrow> noteKey option \<Rightarrow> entry option" where
  "latest queue k =
     (case sort_key (\<lambda>q. - timestamp q)
             (filter (\<lambda>q. noteId q = k \<and> action q \<noteq> ''delete'') queue) of
        [] \<Rightarrow> None
      | l # _ \<Rightarrow> Some l)"

text \<open>
  The three accumulators of the loop: \<^verbatim>\<open>notesToSync\<close>, \<^verbatim>\<open>processedIds\<close> (a
  \<^verbatim>\<open>Set\<close>, which keeps insertion order and holds each key once) and \<^verbatim>\<open>deleteIds\<close>.
\<close>

record collapsed =
  notesToSync :: "payload list"
  processedIds :: "noteKey option list"
  deleteIds :: "string list"

fun process_queue :: "entry list \<Rightarrow> entry list \<Rightarrow> collapsed \<Rightarrow> collapsed" where
  "process_queue queue [] acc = acc"
| "process_queue queue (item # rest) acc =
     (if action item = ''delete'' \<and> truthy (p_id (data item)) then
        process_queue queue rest
          (acc\<lparr>deleteIds := deleteIds acc @ [case p_id (data item) of Some i \<Rightarrow> i | None \<Rightarrow> []]\<rparr>)
      else if noteId item \<notin> set (processedIds acc) then
        (case latest queue (noteId item) of
           Some l \<Rightarrow>
             process_queue queue rest
               (acc\<lparr>processedIds := processedIds acc @ [noteId item],
                    notesToSync := notesToSync acc @ [data l]\<rparr>)
         | None \<Rightarrow> process_queue queue rest acc)
      else process_queue queue rest acc)"

definition collapse :: "entry list \<Rightarrow> collapsed" where
  "collapse queue =
     process_queue queue queue \<lparr>notesToSync = [], processedIds = [], deleteIds = []\<rparr>"


subsection \<open>The local store, the coordinator state and the environment\<close>

text \<open>
  A row of \<^verbatim>\<open>db.notes\<close> (\<^verbatim>\<open>'++id, serverId, title, content, lastModified, synced, userId'\<close>).
  \<open>lastModified = None\<close> is the invalid date that \<^verbatim>\<open>new Date(undefined)\<close> gives.
\<close>

record localNote =
  n_id :: nat
  serverId :: "string option"
  title :: string
  content :: string
  lastModified :: "time option"
  synced :: bool
  userId :: "string option"

text \<open>A note document as the server serialises it (the Mongoose schema plus timestamps).\<close>

record snote =
  s__id :: "string option"
  s_id :: "string option"
  s_title :: string
  s_content :: string
  s_lastModified :: "time option"
  s_updatedAt :: "time option"
  s_userId :: "string option"

text \<open>One element of \<^verbatim>\<open>conflicts\<close>: \<^verbatim>\<open>{ id, reason, serverNote? }\<close>.\<close>

record conflict =
  c_id :: "string option"
  c_reason :: string
  c_serverNote :: "snote option"

text \<open>The body of the answer to \<^verbatim>\<open>POST /notes/sync\<close>.\<close>

record sync_response =
  created :: "snote list"
  updated :: "snote list"
  conflicts :: "conflict list"

text \<open>The requests handed to the network layer.\<close>

datatype request = ReqDelete string | ReqPost "payload list" | ReqGet time

text \<open>
  The module state of \<^verbatim>\<open>sync.js\<close> (\<open>isOnline\<close>, \<open>syncInProgress\<close>, \<open>syncRetryDelay\<close>),
  the two tables with their key generators (a table is the list of its rows in key order),
  the \<^verbatim>\<open>lastSync\<close> item of \<^verbatim>\<open>localStorage\<close>, the delays of the retry callbacks handed
  to \<^verbatim>\<open>setTimeout\<close>, and the requests issued so far, oldest first. \<open>inFlight\<close> is
  not a variable of the source: it counts the activations of \<^verbatim>\<open>triggerSync\<close> that have
  passed the guard of line 61 and have not returned yet.
\<close>

record gstate =
  isOnline :: bool
  syncInProgress :: bool
  syncRetryDelay :: nat
  db_notes :: "localNote list"
  notesKey :: nat
  db_syncQueue :: "entry list"
  queueKey :: nat
  lastSync :: "time option"
  timers :: "nat list"
  sent :: "request list"
  inFlight :: nat

definition MAX_RETRY_DELAY :: nat where
  "MAX_RETRY_DELAY = 60000"

text \<open>
  Every \<^verbatim>\<open>await\<close> of the module is a suspension point, named by its place in the source
  (and by the iteration, inside a loop). The awaited promise resolves, rejects, or has not
  settled yet.
\<close>

datatype site =
    QueueAdd
  | QueueRead
  | ApiDelete nat
  | ApiPost
  | FindByServerId nat
  | FindByTitle nat
  | WriteLocal nat
  | ConflictFind nat
  | ConflictWrite nat
  | BulkDelete
  | RetryRead
  | RetryWrite nat
  | ApiGet
  | PullFind nat
  | PullWrite nat

datatype settlement = Resolves | Rejects | Pending

text \<open>
  What the world outside the module decides during one activation: how each awaited
  promise settles, the bodies of the two answers, and the clock.
\<close>

record env =
  settle :: "site \<Rightarrow> settlement"
  postData :: sync_response
  getData :: "snote list"
  now :: time

text \<open>
  An activation ends abruptly when an exception propagates, or stays parked at an
  \<^verbatim>\<open>await\<close> that has not settled. \<open>Inl\<close> is the abrupt end, \<open>Inr\<close> the value.
\<close>

datatype abrupt = Thrown | Parked site

definition wait :: "env \<Rightarrow> site \<Rightarrow> abrupt option" where
  "wait e s = (case settle e s of Resolves \<Rightarrow> None | Rejects \<Rightarrow> Some Thrown | Pending \<Rightarrow> Some (Parked s))"

subsection \<open>Dexie operations on \<^verbatim>\<open>db.notes\<close>\<close>

text \<open>
  \<^verbatim>\<open>where(index).equals(k).first()\<close> yields the row with the least primary key among the
  matches, \<^verbatim>\<open>undefined\<close> when there is none, and rejects when \<open>k\<close> is \<^verbatim>\<open>undefined\<close>
  or \<^verbatim>\<open>null\<close> (not a valid key).
\<close>

definition findByServerId :: "string \<Rightarrow> localNote list \<Rightarrow> localNote option" where
  "findByServerId k ns = find (\<lambda>n. serverId n = Some k) ns"

definition findByTitleUnsynced :: "string \<Rightarrow> localNote list \<Rightarrow> localNote option" where
  "findByTitleUnsynced t ns = find (\<lambda>n. title n = t \<and> \<not> truthy (serverId n)) ns"

definition notes_update :: "nat \<Rightarrow> (localNote \<Rightarrow> localNote) \<Rightarrow> localNote list \<Rightarrow> localNote list" where
  "notes_update k f ns = map (\<lambda>n. if n_id n = k then f n else n) ns"

definition notes_add :: "localNote \<Rightarrow> gstate \<Rightarrow> gstate" where
  "notes_add n st = st\<lparr>db_notes := db_notes st @ [n\<lparr>n_id := notesKey st\<rparr>], notesKey := Suc (notesKey st)\<rparr>"

text \<open>\<^verbatim>\<open>note._id || note.id\<close> and \<^verbatim>\<open>new Date(note.lastModified || note.updatedAt)\<close>.\<close>

definition noteIdOf :: "snote \<Rightarrow> string option" where
  "noteIdOf n = (if truthy (s__id n) then s__id n else s_id n)"

definition dateOf :: "snote \<Rightarrow> time option" where
  "dateOf n = (case s_lastModified n of Some t \<Rightarrow> Some t | None \<Rightarrow> s_updatedAt n)"


subsection \<open>\<^verbatim>\<open>syncFromServer\<close> (lines 220 to 263)\<close>

definition write_pulled :: "string \<Rightarrow> snote \<Rightarrow> gstate \<Rightarrow> gstate" where
  "write_pulled k n st =
     (case findByServerId k (db_notes st) of
        Some existingNote \<Rightarrow>
          st\<lparr>db_notes := notes_update (n_id existingNote)
                (\<lambda>r. r\<lparr>title := s_title n, content := s_content n,
                        lastModified := dateOf n, synced := True\<rparr>) (db_notes st)\<rparr>
      | None \<Rightarrow>
          notes_add \<lparr>n_id = 0, serverId = Some k, title = s_title n, content = s_content n,
                     lastModified = dateOf n, synced = True, userId = s_userId n\<rparr> st)"

fun pull_notes :: "env \<Rightarrow> nat \<Rightarrow> snote list \<Rightarrow> gstate \<Rightarrow> (abrupt + unit) \<times> gstate" where
  "pull_notes e i [] st = (Inr (), st)"
| "pull_notes e i (n # ns) st =
     (case wait e (PullFind i) of
        Some a \<Rightarrow> (Inl a, st)
      | None \<Rightarrow>
          (case noteIdOf n of
             None \<Rightarrow> (Inl Thrown, st)
           | Some k \<Rightarrow>
               (case wait e (PullWrite i) of
                  Some a \<Rightarrow> (Inl a, st)
                | None \<Rightarrow> pull_notes e (Suc i) ns (write_pulled k n st))))"

text \<open>The \<^verbatim>\<open>catch\<close> of line 260 logs the exception and lets the function return.\<close>

definition syncFromServer :: "env \<Rightarrow> gstate \<Rightarrow> (abrupt + unit) \<times> gstate" where
  "syncFromServer e st =
     (let st1 = st\<lparr>sent := sent st @ [ReqGet (case lastSync st of Some t \<Rightarrow> t | None \<Rightarrow> 0)]\<rparr> in
      case wait e ApiGet of
        Some (Parked s) \<Rightarrow> (Inl (Parked s), st1)
      | Some Thrown \<Rightarrow> (Inr (), st1)
      | None \<Rightarrow>
          (case pull_notes e 0 (getData e) st1 of
             (Inl (Parked s), st2) \<Rightarrow> (Inl (Parked s), st2)
           | (Inl Thrown, st2) \<Rightarrow> (Inr (), st2)
           | (Inr u, st2) \<Rightarrow> (Inr (), st2\<lparr>lastSync := Some (now e)\<rparr>)))"

subsection \<open>\<^verbatim>\<open>triggerSync\<close> (lines 59 to 217)\<close>

text \<open>Lines 107 to 113: a failed \<^verbatim>\<open>DELETE\<close> is logged and the loop goes on.\<close>

fun send_deletes :: "env \<Rightarrow> nat \<Rightarrow> string list \<Rightarrow> gstate \<Rightarrow> (abrupt + unit) \<times> gstate" where
  "send_deletes e i [] st = (Inr (), st)"
| "send_deletes e i (d # ds) st =
     (let st1 = st\<lparr>sent := sent st @ [ReqDelete d]\<rparr> in
      case wait e (ApiDelete i) of
        Some (Parked s) \<Rightarrow> (Inl (Parked s), st1)
      | Some Thrown \<Rightarrow> send_deletes e (Suc i) ds st1
      | None \<Rightarrow> send_deletes e (Suc i) ds st1)"

text \<open>Lines 120 to 156: the records the server created or updated are folded into \<^verbatim>\<open>db.notes\<close>.\<close>

definition lookup_pushed :: "env \<Rightarrow> nat \<Rightarrow> snote \<Rightarrow> gstate \<Rightarrow> abrupt + localNote option" where
  "lookup_pushed e i n st =
     (case wait e (FindByServerId i) of
        Some a \<Rightarrow> Inl a
      | None \<Rightarrow>
          (case noteIdOf n of
             None \<Rightarrow> Inl Thrown
           | Some k \<Rightarrow>
               (case findByServerId k (db_notes st) of
                  Some l \<Rightarrow> Inr (Some l)
                | None \<Rightarrow>
                    (case wait e (FindByTitle i) of
                       Some a \<Rightarrow> Inl a
                     | None \<Rightarrow> Inr (findByTitleUnsynced (s_title n) (db_notes st))))))"

definition write_pushed :: "snote \<Rightarrow> localNote option \<Rightarrow> gstate \<Rightarrow> gstate" where
  "write_pushed n found st =
     (case found of
        Some localNote \<Rightarrow>
          st\<lparr>db_notes := notes_update (n_id localNote)
                (\<lambda>r. r\<lparr>serverId := noteIdOf n, title := s_title n, content := s_content n,
                        synced := True, lastModified := dateOf n\<rparr>) (db_notes st)\<rparr>
      | None \<Rightarrow>
          notes_add \<lparr>n_id = 0, serverId = noteIdOf n, title = s_title n, content = s_content n,
                     lastModified = dateOf n, synced = True, userId = s_userId n\<rparr> st)"

fun reconcile_pushed :: "env \<Rightarrow> nat \<Rightarrow> snote list \<Rightarrow> gstate \<Rightarrow> (abrupt + unit) \<times> gstate" where
  "reconcile_pushed e i [] st = (Inr (), st)"
| "reconcile_pushed e i (n # ns) st =
     (case lookup_pushed e i n st of
        Inl a \<Rightarrow> (Inl a, st)
      | Inr found \<Rightarrow>
          (case wait e (WriteLocal i) of
             Some a \<Rightarrow> (Inl a, st)
           | None \<Rightarrow> reconcile_pushed e (Suc i) ns (write_pushed n found st)))"

text \<open>Lines 158 to 179: a conflict that carries the server's note overwrites the local note.\<close>

definition write_conflict :: "localNote \<Rightarrow> snote \<Rightarrow> gstate \<Rightarrow> gstate" where
  "write_conflict localNote sn st =
     st\<lparr>db_notes := notes_update (n_id localNote)
           (\<lambda>r. r\<lparr>title := s_title sn, content := s_content sn,
                   lastModified := dateOf sn, synced := True\<rparr>) (db_notes st)\<rparr>"

fun resolve_conflicts :: "env \<Rightarrow> nat \<Rightarrow> conflict list \<Rightarrow> gstate \<Rightarrow> (abrupt + unit) \<times> gstate" where
  "resolve_conflicts e i [] st = (Inr (), st)"
| "resolve_conflicts e i (c # cs) st =
     (case c_serverNote c of
        None \<Rightarrow> resolve_conflicts e (Suc i) cs st
      | Some sn \<Rightarrow>
          (case wait e (ConflictFind i) of
             Some a \<Rightarrow> (Inl a, st)
           | None \<Rightarrow>
               (case c_id c of
                  None \<Rightarrow> (Inl Thrown, st)
                | Some k \<Rightarrow>
                    (case findByServerId k (db_notes st) of
                       None \<Rightarrow> resolve_conflicts e (Suc i) cs st
                     | Some localNote \<Rightarrow>
                         (case wait e (ConflictWrite i) of
                            Some a \<Rightarrow> (Inl a, st)
                          | None \<Rightarrow> resolve_conflicts e (Suc i) cs (write_conflict localNote sn st))))))"

text \<open>Lines 115 to 180, entered when \<^verbatim>\<open>notesToSync\<close> is not empty.\<close>

definition push_notes :: "env \<Rightarrow> payload list \<Rightarrow> gstate \<Rightarrow> (abrupt + unit) \<times> gstate" where
  "push_notes e ns st =
     (let st1 = st\<lparr>sent := sent st @ [ReqPost ns]\<rparr> in
      case wait e ApiPost of
        Some a \<Rightarrow> (Inl a, st1)
      | None \<Rightarrow>
          (case reconcile_pushed e 0 (created (postData e) @ updated (postData e)) st1 of
             (Inl a, st2) \<Rightarrow> (Inl a, st2)
           | (Inr u, st2) \<Rightarrow> resolve_conflicts e 0 (conflicts (postData e)) st2))"

text \<open>Lines 183 to 186.\<close>

definition processedQueueIds :: "entry list \<Rightarrow> collapsed \<Rightarrow> nat list" where
  "processedQueueIds queue c =
     map e_id
       (filter (\<lambda>q. noteId q \<in> set (processedIds c) \<or>
                    (action q = ''delete'' \<and>
                     (case p_id (data q) of Some i \<Rightarrow> i \<in> set (deleteIds c) | None \<Rightarrow> False)))
          queue)"

definition bulkDelete :: "nat list \<Rightarrow> entry list \<Rightarrow> entry list" where
  "bulkDelete ks tbl = filter (\<lambda>q. e_id q \<notin> set ks) tbl"

text \<open>The \<^verbatim>\<open>try\<close> block, lines 68 to 192.\<close>

definition try_block :: "env \<Rightarrow> gstate \<Rightarrow> (abrupt + bool) \<times> gstate" where
  "try_block e st =
     (case wait e QueueRead of
        Some a \<Rightarrow> (Inl a, st)
      | None \<Rightarrow>
          (let queue = sort_key timestamp (db_syncQueue st) in
           if queue = [] then
             (case syncFromServer e st of
                (Inl a, st1) \<Rightarrow> (Inl a, st1)
              | (Inr u, st1) \<Rightarrow> (Inr True, st1\<lparr>syncInProgress := False\<rparr>))
           else
             (let c = collapse queue in
              case send_deletes e 0 (deleteIds c) st of
                (Inl a, st1) \<Rightarrow> (Inl a, st1)
              | (Inr u, st1) \<Rightarrow>
                  (case (if notesToSync c \<noteq> [] then push_notes e (notesToSync c) st1
                         else (Inr (), st1)) of
                     (Inl a, st2) \<Rightarrow> (Inl a, st2)
                   | (Inr u, st2) \<Rightarrow>
                       (case wait e BulkDelete of
                          Some a \<Rightarrow> (Inl a, st2)
                        | None \<Rightarrow>
                            (case syncFromServer e
                                    (st2\<lparr>db_syncQueue :=
                                           bulkDelete (processedQueueIds queue c) (db_syncQueue st2)\<rparr>) of
                               (Inl a, st3) \<Rightarrow> (Inl a, st3)
                             | (Inr u, st3) \<Rightarrow> (Inr True, st3\<lparr>syncRetryDelay := 1000\<rparr>)))))))"

text \<open>The \<^verbatim>\<open>catch\<close> block, lines 193 to 213.\<close>

fun bump_retries :: "env \<Rightarrow> nat \<Rightarrow> entry list \<Rightarrow> gstate \<Rightarrow> (abrupt + unit) \<times> gstate" where
  "bump_retries e i [] st = (Inr (), st)"
| "bump_retries e i (item # rest) st =
     (case wait e (RetryWrite i) of
        Some a \<Rightarrow> (Inl a, st)
      | None \<Rightarrow>
          bump_retries e (Suc i) rest
            (st\<lparr>db_syncQueue :=
                  map (\<lambda>q. if e_id q = e_id item then q\<lparr>retries := retries item + 1\<rparr> else q)
                    (db_syncQueue st)\<rparr>))"

definition catch_block :: "env \<Rightarrow> gstate \<Rightarrow> (abrupt + bool) \<times> gstate" where
  "catch_block e st =
     (let st1 = st\<lparr>syncRetryDelay := min (syncRetryDelay st * 2) MAX_RETRY_DELAY\<rparr> in
      case wait e RetryRead of
        Some a \<Rightarrow> (Inl a, st1)
      | None \<Rightarrow>
          (case bump_retries e 0 (db_syncQueue st1) st1 of
             (Inl a, st2) \<Rightarrow> (Inl a, st2)
           | (Inr u, st2) \<Rightarrow> (Inr False, st2\<lparr>timers := timers st2 @ [syncRetryDelay st2]\<rparr>)))"

text \<open>
  The \<^verbatim>\<open>finally\<close> block, lines 214 to 216. It runs when the activation leaves the
  statement, by a \<^verbatim>\<open>return\<close> or by an exception; an activation that is parked at an
  \<^verbatim>\<open>await\<close> has not left.
\<close>

definition finally_block :: "(abrupt + bool) \<times> gstate \<Rightarrow> (abrupt + bool) \<times> gstate" where
  "finally_block r =
     (case r of
        (Inl (Parked s), st) \<Rightarrow> (Inl (Parked s), st)
      | (c, st) \<Rightarrow> (c, st\<lparr>syncInProgress := False, inFlight := inFlight st - 1\<rparr>))"

text \<open>The whole \<^verbatim>\<open>try\<close> statement, lines 67 to 216.\<close>

definition cycle :: "env \<Rightarrow> gstate \<Rightarrow> (abrupt + bool) \<times> gstate" where
  "cycle e st =
     finally_block
       (case try_block e st of
          (Inl Thrown, st1) \<Rightarrow> catch_block e st1
        | r \<Rightarrow> r)"

text \<open>
  Lines 61 to 65 run without suspension: the guard, and the flag. The result says whether
  the activation goes on to the \<^verbatim>\<open>try\<close> statement.
\<close>

definition invoke :: "gstate \<Rightarrow> bool \<times> gstate" where
  "invoke st =
     (if \<not> isOnline st \<or> syncInProgress st then (False, st)
      else (True, st\<lparr>syncInProgress := True, inFlight := inFlight st + 1\<rparr>))"

definition triggerSync :: "env \<Rightarrow> gstate \<Rightarrow> (abrupt + bool) \<times> gstate" where
  "triggerSync e st =
     (case invoke st of
        (False, st') \<Rightarrow> (Inr False, st')
      | (True, st') \<Rightarrow> cycle e st')"

subsection \<open>\<^verbatim>\<open>addToSyncQueue\<close> (lines 29 to 44)\<close>

text \<open>
  \<^verbatim>\<open>triggerSync()\<close> is called and not awaited: the caller goes on when the new activation
  reaches its first \<^verbatim>\<open>await\<close>, that is after \<open>invoke\<close>. The \<^verbatim>\<open>catch\<close> of line 41 logs
  a rejected \<^verbatim>\<open>add\<close>; the function then returns \<^verbatim>\<open>undefined\<close>, as it does after line 40.
\<close>

definition queue_add :: "noteKey option \<Rightarrow> string \<Rightarrow> payload \<Rightarrow> time \<Rightarrow> gstate \<Rightarrow> gstate" where
  "queue_add k a d t st =
     st\<lparr>db_syncQueue := db_syncQueue st @
           [\<lparr>e_id = queueKey st, noteId = k, action = a, data = d, timestamp = t, retries = 0\<rparr>],
        queueKey := Suc (queueKey st)\<rparr>"

definition addToSyncQueue ::
    "env \<Rightarrow> noteKey option \<Rightarrow> string \<Rightarrow> payload \<Rightarrow> gstate \<Rightarrow> (abrupt + unit) \<times> gstate" where
  "addToSyncQueue e k a d st =
     (case wait e QueueAdd of
        Some (Parked s) \<Rightarrow> (Inl (Parked s), st)
      | Some Thrown \<Rightarrow> (Inr (), st)
      | None \<Rightarrow>
          (let st1 = queue_add k a d (now e) st in
           (Inr (), if isOnline st1 then snd (invoke st1) else st1)))"

subsection \<open>The server's input sanitisation (\<^verbatim>\<open>middleware/sanitize.js\<close>, lines 13 to 49)\<close>

text \<open>
  A string is the list of its code units; those of this model are the ones below 256.
  \<^verbatim>\<open>String.prototype.trim\<close> removes white space and line terminators from both ends; below
  256 these are the code units 9 to 13, 32 and 160.
\<close>

definition whiteSpace :: "char \<Rightarrow> bool" where
  "whiteSpace c = (c \<in> set [CHR 0x09, CHR 0x0A, CHR 0x0B, CHR 0x0C, CHR 0x0D, CHR 0x20, CHR 0xA0])"

definition trim :: "string \<Rightarrow> string" where
  "trim s = rev (dropWhile whiteSpace (rev (dropWhile whiteSpace s)))"

text \<open>
  The flag \<^verbatim>\<open>i\<close> (without \<^verbatim>\<open>u\<close>) lets a letter of the pattern match its upper and its lower
  case and nothing else; \<^verbatim>\<open>\w\<close> is a letter of the English alphabet, a digit or the
  underscore.
\<close>

definition toLower :: "char \<Rightarrow> char" where
  "toLower c = (case map_of (zip ''ABCDEFGHIJKLMNOPQRSTUVWXYZ'' ''abcdefghijklmnopqrstuvwxyz'') c of
                  Some l \<Rightarrow> l | None \<Rightarrow> c)"

definition wordChar :: "char \<Rightarrow> bool" where
  "wordChar c = (c \<in> set ''abcdefghijklmnopqrstuvwxyzABCDEFGHIJKLMNOPQRSTUVWXYZ0123456789_'')"

text \<open>
  \<^verbatim>\<open>str.replace(re, '')\<close> with the flag \<^verbatim>\<open>g\<close>, for a pattern that matches no empty string:
  the text is read from the left; where the pattern matches (\<open>m\<close> gives the length of the
  match that starts at the head of its argument) the match is left out and reading goes
  on behind it, elsewhere one code unit is kept. The result is not read again.
\<close>

fun remove_matches :: "(string \<Rightarrow> nat option) \<Rightarrow> string \<Rightarrow> string" where
  "remove_matches m [] = []"
| "remove_matches m (c # cs) =
     (case m (c # cs) of
        Some (Suc n) \<Rightarrow> remove_matches m (drop n cs)
      | _ \<Rightarrow> c # remove_matches m cs)"

text \<open>\<^verbatim>\<open>/javascript:/gi\<close>, line 18.\<close>

definition match_javascript :: "string \<Rightarrow> nat option" where
  "match_javascript s = (if map toLower (take 11 s) = ''javascript:'' then Some 11 else None)"

text \<open>
  \<^verbatim>\<open>/on\w+=/gi\<close>, line 19: \<^verbatim>\<open>on\<close>, the longest run of word characters, which must not be
  empty, and \<^verbatim>\<open>=\<close>. A shorter run is never followed by \<^verbatim>\<open>=\<close>, which is no word character.
\<close>

definition match_handler :: "string \<Rightarrow> nat option" where
  "match_handler s =
     (if map toLower (take 2 s) = ''on'' then
        (let w = takeWhile wordChar (drop 2 s) in
         if w \<noteq> [] \<and> take 1 (drop (2 + length w) s) = ''='' then Some (2 + length w + 1) else None)
      else None)"

text \<open>Lines 13 to 20, for a string.\<close>

definition sanitizeString :: "string \<Rightarrow> string" where
  "sanitizeString str =
     remove_matches match_handler
       (remove_matches match_javascript
          (filter (\<lambda>c. c \<noteq> CHR ''<'' \<and> c \<noteq> CHR ''>'') (trim str)))"

text \<open>
  Lines 25 to 39, for one element of \<^verbatim>\<open>notes\<close>. None of its keys begins with \<^verbatim>\<open>$\<close>, an
  absent property stays absent, and the text of \<^verbatim>\<open>lastModified\<close>, which \<^verbatim>\<open>toISOString\<close>
  wrote, has no code unit that \<^verbatim>\<open>sanitizeString\<close> removes.
\<close>

definition sanitizeObject :: "payload \<Rightarrow> payload" where
  "sanitizeObject obj =
     obj\<lparr>p_id := map_option sanitizeString (p_id obj), p_title := sanitizeString (p_title obj),
         p_content := sanitizeString (p_content obj)\<rparr>"

text \<open>Lines 44 to 49, for the body \<^verbatim>\<open>{ notes }\<close> of the request.\<close>

definition sanitizeBody :: "payload list \<Rightarrow> payload list" where
  "sanitizeBody ns = map sanitizeObject ns"

subsection \<open>The server's handler of \<^verbatim>\<open>POST /sync\<close> (backend routes, lines 287 to 368)\<close>

text \<open>
  The handler works on the collection of note documents, here the list of the documents as
  they are serialised. Its surroundings give the authenticated user, the clock, the
  identifier of a document created for the \<open>i\<close>-th element of the request, and say whether
  \<^verbatim>\<open>findById\<close> or \<^verbatim>\<open>save\<close> throws for that element (a malformed id, a failed validation,
  a database error), with the message of the error.

  \<^verbatim>\<open>models/Note.js\<close> is not among the sources. What its schema does to a title that is
  assigned to a document is the parameter \<open>setTitle\<close>; \<^verbatim>\<open>DATABASE_SCHEMA.md\<close> documents
  \<^verbatim>\<open>title: { type: String, required: true, trim: true }\<close>, for which it is \<open>trim\<close>, and
  \<^verbatim>\<open>save\<close> throws when the title is empty.
\<close>

record server_env =
  reqUser :: string
  srvNow :: time
  freshId :: "nat \<Rightarrow> string"
  findThrows :: "nat \<Rightarrow> bool"
  saveThrows :: "nat \<Rightarrow> bool"
  errorMessage :: "nat \<Rightarrow> string"
  setTitle :: "string \<Rightarrow> string"

text \<open>The inner \<^verbatim>\<open>catch\<close>, lines 356 to 361.\<close>

definition error_conflict :: "server_env \<Rightarrow> nat \<Rightarrow> payload \<Rightarrow> snote list \<times> sync_response \<Rightarrow>
    snote list \<times> sync_response" where
  "error_conflict v i syncNote sr =
     (case sr of (store, res) \<Rightarrow>
        (store, res\<lparr>conflicts := conflicts res @
           [\<lparr>c_id = p_id syncNote, c_reason = errorMessage v i, c_serverNote = None\<rparr>]\<rparr>))"

text \<open>Lines 323 to 341 and 343 to 354: a new document.\<close>

definition create_note :: "server_env \<Rightarrow> nat \<Rightarrow> payload \<Rightarrow> snote list \<times> sync_response \<Rightarrow>
    snote list \<times> sync_response" where
  "create_note v i syncNote sr =
     (if saveThrows v i then error_conflict v i syncNote sr
      else
        (case sr of (store, res) \<Rightarrow>
           (let newNote = \<lparr>s__id = Some (freshId v i), s_id = None, s_title = setTitle v (p_title syncNote),
                  s_content = p_content syncNote,
                  s_lastModified = Some (case p_lastModified syncNote of Some t \<Rightarrow> t | None \<Rightarrow> srvNow v),
                  s_updatedAt = Some (srvNow v), s_userId = Some (reqUser v)\<rparr>
            in (store @ [newNote], res\<lparr>created := created res @ [newNote]\<rparr>))))"

text \<open>
  The body of the loop, lines 301 to 355. The comparison of line 318 is between the
  millisecond values of two dates; a document whose \<^verbatim>\<open>lastModified\<close> is \<^verbatim>\<open>null\<close> counts
  as 0 there.
\<close>

definition sync_note :: "server_env \<Rightarrow> nat \<Rightarrow> payload \<Rightarrow> snote list \<times> sync_response \<Rightarrow>
    snote list \<times> sync_response" where
  "sync_note v i syncNote sr =
     (case sr of (store, res) \<Rightarrow>
        (if truthy (p_id syncNote) then
           (if findThrows v i then error_conflict v i syncNote sr
            else
              (case find (\<lambda>n. s__id n = p_id syncNote) store of
                 Some existingNote \<Rightarrow>
                   (case s_userId existingNote of
                      None \<Rightarrow> error_conflict v i syncNote sr
                    | Some owner \<Rightarrow>
                        (if owner \<noteq> reqUser v then
                           (store, res\<lparr>conflicts := conflicts res @
                              [\<lparr>c_id = p_id syncNote, c_reason = ''Unauthorized'', c_serverNote = None\<rparr>]\<rparr>)
                         else
                           (let syncDate = (case p_lastModified syncNote of Some t \<Rightarrow> t | None \<Rightarrow> srvNow v) in
                            if (case s_lastModified existingNote of
                                  Some t2 \<Rightarrow> syncDate \<ge> t2
                                | None \<Rightarrow> syncDate \<ge> 0) then
                              (if saveThrows v i then error_conflict v i syncNote sr
                               else
                                 (let saved = existingNote\<lparr>s_title := setTitle v (p_title syncNote),
                                        s_content := p_content syncNote,
                                        s_lastModified := Some syncDate,
                                        s_updatedAt := Some (srvNow v)\<rparr>
                                  in (map (\<lambda>n. if s__id n = s__id existingNote then saved else n) store,
                                      res\<lparr>updated := updated res @ [saved]\<rparr>)))
                            else
                              (store, res\<lparr>conflicts := conflicts res @
                                 [\<lparr>c_id = p_id syncNote, c_reason = ''Server version is newer'',
                                   c_serverNote = Some existingNote\<rparr>]\<rparr>))))
               | None \<Rightarrow> create_note v i syncNote sr))
         else create_note v i syncNote sr))"

fun sync_notes :: "server_env \<Rightarrow> nat \<Rightarrow> payload list \<Rightarrow> snote list \<times> sync_response \<Rightarrow>
    snote list \<times> sync_response" where
  "sync_notes v i [] sr = sr"
| "sync_notes v i (syncNote # rest) sr = sync_notes v (Suc i) rest (sync_note v i syncNote sr)"

definition post_sync :: "server_env \<Rightarrow> payload list \<Rightarrow> snote list \<Rightarrow> snote list \<times> sync_response" where
  "post_sync v ns store = sync_notes v 0 ns (store, \<lparr>created = [], updated = [], conflicts = []\<rparr>)"

text \<open>
  The route as \<^verbatim>\<open>server.js\<close> serves it: \<^verbatim>\<open>app.use(sanitizeBody)\<close> of line 37 comes before
  the routers of lines 49 to 51, so the handler reads the sanitised body. (The request has
  passed the rate limiter and the authentication, which answer with an error otherwise.)
\<close>

definition app_post_sync :: "server_env \<Rightarrow> payload list \<Rightarrow> snote list \<Rightarrow> snote list \<times> sync_response" where
  "app_post_sync v body store = post_sync v (sanitizeBody body) store"

subsection \<open>The coordinator among its callers\<close>

text \<open>
  What happens to the module between two of its suspension points: a caller invokes
  \<^verbatim>\<open>triggerSync\<close> (the start-up timer of line 269, a save), the browser reports a
  connectivity change (lines 11 to 19), a note is enqueued, the retry timer of line 208 or
  the periodic timer of line 273 fires, or the promises awaited by an activation in flight
  settle. The steps an activation takes after its first \<^verbatim>\<open>await\<close> are taken together
  when it returns; an activation whose promises are still pending stays where it is.
\<close>

datatype event =
    Call
  | Settle env
  | Online
  | Offline
  | Enqueue env "noteKey option" string payload
  | RetryTimer
  | PeriodicTimer

fun step :: "event \<Rightarrow> gstate \<Rightarrow> gstate" where
  "step Call st = snd (invoke st)"
| "step (Settle e) st =
     (if inFlight st = 0 then st
      else (case cycle e st of
              (Inl (Parked s), st') \<Rightarrow> st
            | (r, st') \<Rightarrow> st'))"
| "step Online st = snd (invoke (st\<lparr>isOnline := True, syncRetryDelay := 1000\<rparr>))"
| "step Offline st = st\<lparr>isOnline := False\<rparr>"
| "step (Enqueue e k a d) st = snd (addToSyncQueue e k a d st)"
| "step RetryTimer st =
     (case timers st of
        [] \<Rightarrow> st
      | t # ts \<Rightarrow> (if isOnline st then snd (invoke (st\<lparr>timers := ts\<rparr>)) else st\<lparr>timers := ts\<rparr>))"
| "step PeriodicTimer st =
     (if isOnline st \<and> \<not> syncInProgress st then snd (invoke st) else st)"

fun run :: "event list \<Rightarrow> gstate \<Rightarrow> gstate" where
  "run [] st = st"
| "run (ev # evs) st = run evs (step ev st)"

subsection \<open>Notions used in the statements\<close>

text \<open>
  Two states agree on the coordinator's variables, or on the queue table. The iterations over
  server records touch neither.
\<close>

definition ctrl_eq :: "gstate \<Rightarrow> gstate \<Rightarrow> bool" where
  "ctrl_eq st st' =
     (isOnline st' = isOnline st \<and> syncInProgress st' = syncInProgress st \<and>
      syncRetryDelay st' = syncRetryDelay st \<and> timers st' = timers st \<and>
      inFlight st' = inFlight st)"

definition queue_eq :: "gstate \<Rightarrow> gstate \<Rightarrow> bool" where
  "queue_eq st st' = (db_syncQueue st' = db_syncQueue st \<and> queueKey st' = queueKey st)"

definition keeps :: "gstate \<Rightarrow> gstate \<Rightarrow> bool" where
  "keeps st st' =
     (ctrl_eq st st' \<and> queue_eq st st' \<and> sent st' = sent st \<and> lastSync st' = lastSync st)"

text \<open>One more failed attempt recorded on a queue entry.\<close>

definition bump :: "entry \<Rightarrow> entry" where
  "bump q = q\<lparr>retries := retries q + 1\<rparr>"

text \<open>The bodies of the batched pushes among a list of requests.\<close>

fun posts :: "request list \<Rightarrow> payload list list" where
  "posts [] = []"
| "posts (ReqPost ns # rs) = ns # posts rs"
| "posts (r # rs) = posts rs"

text \<open>
  The entries that a completed cycle leaves in the queue: deletes without a payload id, of a
  note that has no create or update queued.
\<close>

definition stays :: "entry list \<Rightarrow> entry \<Rightarrow> bool" where
  "stays queue x =
     (action x = ''delete'' \<and> \<not> truthy (p_id (data x)) \<and> latest queue (noteId x) = None)"

text \<open>The flag tells whether an activation is in flight, and there is at most one.\<close>

definition single_flight :: "gstate \<Rightarrow> bool" where
  "single_flight st = (inFlight st \<le> 1 \<and> syncInProgress st = (inFlight st = 1))"

subsection \<open>Sample states\<close>

text \<open>
  An idle coordinator that is online, an environment in which every promise resolves and
  the server has nothing to report, two updates and a delete of the note whose server
  identity is \<open>a\<close>, that note as the server and as the local store hold it, and a server
  on which nothing fails.
\<close>

definition st_idle :: gstate where
  "st_idle = \<lparr>isOnline = True, syncInProgress = False, syncRetryDelay = 1000, db_notes = [],
     notesKey = 1, db_syncQueue = [], queueKey = 1, lastSync = None, timers = [], sent = [],
     inFlight = 0\<rparr>"

definition env_ok :: env where
  "env_ok = \<lparr>settle = (\<lambda>s. Resolves), postData = \<lparr>created = [], updated = [], conflicts = []\<rparr>,
     getData = [], now = 100\<rparr>"

definition payload_a1 :: payload where
  "payload_a1 = \<lparr>p_id = Some ''a'', p_title = ''first'', p_content = ''one'', p_lastModified = Some 10\<rparr>"

definition payload_a2 :: payload where
  "payload_a2 = \<lparr>p_id = Some ''a'', p_title = ''second'', p_content = ''two'', p_lastModified = Some 20\<rparr>"

definition update_a1 :: entry where
  "update_a1 = \<lparr>e_id = 1, noteId = Some (ServerKey ''a''), action = ''update'', data = payload_a1,
     timestamp = 10, retries = 0\<rparr>"

definition update_a2 :: entry where
  "update_a2 = \<lparr>e_id = 2, noteId = Some (ServerKey ''a''), action = ''update'', data = payload_a2,
     timestamp = 20, retries = 0\<rparr>"

definition delete_a :: entry where
  "delete_a = \<lparr>e_id = 3, noteId = Some (ServerKey ''a''), action = ''delete'', data = payload_a2,
     timestamp = 30, retries = 0\<rparr>"

definition server_note_a :: snote where
  "server_note_a = \<lparr>s__id = Some ''a'', s_id = None, s_title = ''theirs'', s_content = ''server text'',
     s_lastModified = Some 20, s_updatedAt = Some 25, s_userId = Some ''u''\<rparr>"

definition local_note_a :: localNote where
  "local_note_a = \<lparr>n_id = 1, serverId = Some ''a'', title = ''mine'', content = ''local text'',
     lastModified = Some 5, synced = False, userId = Some ''u''\<rparr>"

definition srv_ok :: server_env where
  "srv_ok = \<lparr>reqUser = ''u'', srvNow = 100, freshId = (\<lambda>i. ''n''), findThrows = (\<lambda>i. False),
     saveThrows = (\<lambda>i. False), errorMessage = (\<lambda>i. ''failed''), setTitle = trim\<rparr>"

text \<open>
  A note written in the editor, whose content is markup: the update queued for it with the
  date of the server's document (\<open>payload_html\<close>) and with an older date
  (\<open>payload_older\<close>), the note as the local store holds it while the update is queued, and
  the document of the server.
\<close>

definition payload_html :: payload where
  "payload_html = \<lparr>p_id = Some ''507f191e810c19729de860ea'', p_title = ''Plan '',
     p_content = ''<p>two</p>'', p_lastModified = Some 20\<rparr>"

definition payload_older :: payload where
  "payload_older = \<lparr>p_id = Some ''507f191e810c19729de860ea'', p_title = ''Plan '',
     p_content = ''<p>two</p>'', p_lastModified = Some 10\<rparr>"

definition update_html :: entry where
  "update_html = \<lparr>e_id = 1, noteId = Some (ServerKey ''507f191e810c19729de860ea''), action = ''update'',
     data = payload_html, timestamp = 20, retries = 0\<rparr>"

definition update_older :: entry where
  "update_older = \<lparr>e_id = 1, noteId = Some (ServerKey ''507f191e810c19729de860ea''), action = ''update'',
     data = payload_older, timestamp = 10, retries = 0\<rparr>"

definition local_note_html :: localNote where
  "local_note_html = \<lparr>n_id = 1, serverId = Some ''507f191e810c19729de860ea'', title = ''Plan '',
     content = ''<p>two</p>'', lastModified = Some 20, synced = False, userId = Some ''u''\<rparr>"

definition server_note_html :: snote where
  "server_note_html = \<lparr>s__id = Some ''507f191e810c19729de860ea'', s_id = None, s_title = ''theirs'',
     s_content = ''server text'', s_lastModified = Some 20, s_updatedAt = Some 25, s_userId = Some ''u''\<rparr>"

text \<open>
  The state in which one entry is queued for that note, and the environment in which every
  promise resolves, the push is answered by the route of the server, and the pull returns
  the documents the server holds after it (\<^verbatim>\<open>GET /sync/after\<close>, lines 371 to 384, with
  no \<^verbatim>\<open>lastSync\<close> stored).
\<close>

definition st_queued :: "entry \<Rightarrow> gstate" where
  "st_queued x = st_idle\<lparr>db_notes := [local_note_html], db_syncQueue := [x]\<rparr>"

definition env_answering :: "payload \<Rightarrow> env" where
  "env_answering d = env_ok\<lparr>postData := snd (app_post_sync srv_ok [d] [server_note_html]),
     getData := fst (app_post_sync srv_ok [d] [server_note_html])\<rparr>"

text \<open>Environments in which one promise is rejected, or is still pending.\<close>

definition env_reject :: "site \<Rightarrow> env" where
  "env_reject x = env_ok\<lparr>settle := (\<lambda>s. if s = x then Rejects else Resolves)\<rparr>"

definition env_pending :: "site \<Rightarrow> env" where
  "env_pending x = env_ok\<lparr>settle := (\<lambda>s. if s = x then Pending else Resolves)\<rparr>"

section \<open>Properties\<close>

subsection \<open>The collapsed queue\<close>

lemma sort_key_Nil_iff: "sort_key f xs = [] \<longleftrightarrow> xs = []"
  using length_sort[of f xs] by (metis length_0_conv)

lemma latest_None: "latest queue k = None \<longleftrightarrow> (\<forall>q\<in>set queue. noteId q = k \<longrightarrow> action q = ''delete'')"
proof -
  let ?ys = "filter (\<lambda>q. noteId q = k \<and> action q \<noteq> ''delete'') queue"
  have "latest queue k = None \<longleftrightarrow> sort_key (\<lambda>q. - timestamp q) ?ys = []"
    unfolding latest_def by (cases "sort_key (\<lambda>q. - timestamp q) ?ys") simp_all
  also have "\<dots> \<longleftrightarrow> ?ys = []" by (rule sort_key_Nil_iff)
  also have "\<dots> \<longleftrightarrow> (\<forall>q\<in>set queue. noteId q = k \<longrightarrow> action q = ''delete'')"
    unfolding filter_empty_conv by blast
  finally show ?thesis .
qed



lemma process_queue_aligned:
  assumes "map Some (notesToSync acc) = map (\<lambda>k. map_option data (latest queue k)) (processedIds acc)"
      and "distinct (processedIds acc)"
  shows "map Some (notesToSync (process_queue queue items acc)) =
           map (\<lambda>k. map_option data (latest queue k)) (processedIds (process_queue queue items acc))
         \<and> distinct (processedIds (process_queue queue items acc))"
  using assms
proof (induction items arbitrary: acc)
  case Nil
  then show ?case by simp
next
  case (Cons item rest)
  show ?case
  proof (cases "action item = ''delete'' \<and> truthy (p_id (data item))")
    case True
    then show ?thesis using Cons.IH[of "acc\<lparr>deleteIds := deleteIds acc @ [case p_id (data item) of Some i \<Rightarrow> i | None \<Rightarrow> []]\<rparr>"] Cons.prems
      by (simp add: True)
  next
    case False
    show ?thesis
    proof (cases "noteId item \<notin> set (processedIds acc)")
      case n: True
      show ?thesis
      proof (cases "latest queue (noteId item)")
        case None
        then show ?thesis using n Cons.IH[of acc] Cons.prems by (simp add: False)
      next
        case (Some l)
        then show ?thesis using n Cons.prems
          Cons.IH[of "acc\<lparr>processedIds := processedIds acc @ [noteId item],
                    notesToSync := notesToSync acc @ [data l]\<rparr>"]
          by (simp add: False)
      qed
    next
      case n: False
      then show ?thesis using Cons.IH[of acc] Cons.prems by (simp add: False)
    qed
  qed
qed

lemma process_queue_mono:
  "set (processedIds acc) \<subseteq> set (processedIds (process_queue queue items acc))"
proof (induction items arbitrary: acc)
  case Nil
  then show ?case by simp
next
  case (Cons item rest)
  show ?case
  proof (cases "action item = ''delete'' \<and> truthy (p_id (data item))")
    case True
    then show ?thesis
      using Cons.IH[of "acc\<lparr>deleteIds := deleteIds acc @ [case p_id (data item) of Some i \<Rightarrow> i | None \<Rightarrow> []]\<rparr>"]
      by (simp add: True)
  next
    case False
    show ?thesis
    proof (cases "latest queue (noteId item)")
      case None
      then show ?thesis using Cons.IH[of acc] by (simp add: False)
    next
      case (Some l)
      have "set (processedIds acc) \<subseteq> set (processedIds acc @ [noteId item])" by auto
      then show ?thesis
        using Some Cons.IH[of acc]
          Cons.IH[of "acc\<lparr>processedIds := processedIds acc @ [noteId item],
                    notesToSync := notesToSync acc @ [data l]\<rparr>"]
        by (simp add: False)
    qed
  qed
qed

lemma process_queue_covers:
  assumes "item \<in> set items" and "\<not> (action item = ''delete'' \<and> truthy (p_id (data item)))"
      and "latest queue (noteId item) \<noteq> None"
  shows "noteId item \<in> set (processedIds (process_queue queue items acc))"
  using assms(1)
proof (induction items arbitrary: acc)
  case Nil
  then show ?case by simp
next
  case (Cons x rest)
  show ?case
  proof (cases "x = item")
    case True
    obtain l where l: "latest queue (noteId item) = Some l" using assms(3) by blast
    show ?thesis
    proof (cases "noteId item \<in> set (processedIds acc)")
      case in_acc: True
      then show ?thesis using process_queue_mono[of acc queue "x # rest"] by blast
    next
      case False
      have "noteId item \<in> set (processedIds (acc\<lparr>processedIds := processedIds acc @ [noteId item],
                    notesToSync := notesToSync acc @ [data l]\<rparr>))" by simp
      then have "noteId item \<in> set (processedIds (process_queue queue rest
          (acc\<lparr>processedIds := processedIds acc @ [noteId item],
                    notesToSync := notesToSync acc @ [data l]\<rparr>)))"
        using process_queue_mono by blast
      then show ?thesis using True False l by (simp add: assms(2))
    qed
  next
    case False
    then have r: "item \<in> set rest" using Cons.prems by simp
    show ?thesis
    proof (cases "action x = ''delete'' \<and> truthy (p_id (data x))")
      case True
      then show ?thesis
        using Cons.IH[OF r, of "acc\<lparr>deleteIds := deleteIds acc @ [case p_id (data x) of Some i \<Rightarrow> i | None \<Rightarrow> []]\<rparr>"]
        by (simp add: True)
    next
      case nd: False
      show ?thesis
      proof (cases "latest queue (noteId x)")
        case None
        then show ?thesis using Cons.IH[OF r, of acc] by (simp add: nd)
      next
        case (Some l)
        then show ?thesis
          using Cons.IH[OF r, of acc]
            Cons.IH[OF r, of "acc\<lparr>processedIds := processedIds acc @ [noteId x],
                    notesToSync := notesToSync acc @ [data l]\<rparr>"]
          by (simp add: nd)
      qed
    qed
  qed
qed

lemma collapse_aligned:
  "map Some (notesToSync (collapse queue)) =
     map (\<lambda>k. map_option data (latest queue k)) (processedIds (collapse queue))
   \<and> distinct (processedIds (collapse queue))"
  unfolding collapse_def by (rule process_queue_aligned) simp_all


subsection \<open>What the iterations leave alone\<close>

lemma keeps_refl: "keeps st st"
  by (simp add: keeps_def ctrl_eq_def queue_eq_def)

lemma keeps_trans: "keeps a b \<Longrightarrow> keeps b c \<Longrightarrow> keeps a c"
  by (simp add: keeps_def ctrl_eq_def queue_eq_def)

lemma keeps_write_pulled: "keeps st (write_pulled k n st)"
  by (simp add: write_pulled_def notes_add_def keeps_def ctrl_eq_def queue_eq_def split: option.split)

lemma keeps_write_pushed: "keeps st (write_pushed n f st)"
  by (simp add: write_pushed_def notes_add_def keeps_def ctrl_eq_def queue_eq_def split: option.split)

lemma keeps_write_conflict: "keeps st (write_conflict l sn st)"
  by (simp add: write_conflict_def keeps_def ctrl_eq_def queue_eq_def)

lemma pull_notes_keeps: "keeps st (snd (pull_notes e i xs st))"
proof (induction xs arbitrary: i st)
  case Nil
  then show ?case by (simp add: keeps_refl)
next
  case (Cons n ns)
  show ?case
  proof (cases "wait e (PullFind i)")
    case (Some a)
    then show ?thesis by (simp add: keeps_refl)
  next
    case None
    note w1 = this
    show ?thesis
    proof (cases "noteIdOf n")
      case None
      then show ?thesis using w1 by (simp add: keeps_refl)
    next
      case (Some k)
      show ?thesis
      proof (cases "wait e (PullWrite i)")
        case None
        have "keeps st (snd (pull_notes e (Suc i) ns (write_pulled k n st)))"
          by (rule keeps_trans[OF keeps_write_pulled Cons.IH])
        then show ?thesis using w1 Some None by simp
      next
        case (Some a)
        then show ?thesis using w1 \<open>noteIdOf n = Some k\<close> by (simp add: keeps_refl)
      qed
    qed
  qed
qed


lemma reconcile_pushed_keeps: "keeps st (snd (reconcile_pushed e i xs st))"
proof (induction xs arbitrary: i st)
  case Nil
  then show ?case by (simp add: keeps_refl)
next
  case (Cons n ns)
  show ?case
  proof (cases "lookup_pushed e i n st")
    case (Inl a)
    then show ?thesis by (simp add: keeps_refl)
  next
    case (Inr found)
    show ?thesis
    proof (cases "wait e (WriteLocal i)")
      case None
      have "keeps st (snd (reconcile_pushed e (Suc i) ns (write_pushed n found st)))"
        by (rule keeps_trans[OF keeps_write_pushed Cons.IH])
      then show ?thesis using Inr None by simp
    next
      case (Some a)
      then show ?thesis using Inr by (simp add: keeps_refl)
    qed
  qed
qed

lemma resolve_conflicts_keeps: "keeps st (snd (resolve_conflicts e i cs st))"
proof (induction cs arbitrary: i st)
  case Nil
  then show ?case by (simp add: keeps_refl)
next
  case (Cons c cs)
  have step: "keeps st (snd (resolve_conflicts e (Suc i) cs (write_conflict l sn st)))" for l sn
    by (rule keeps_trans[OF keeps_write_conflict Cons.IH])
  show ?case
    by (simp add: keeps_refl Cons.IH step split: option.split)
qed

lemma send_deletes_frame:
  "ctrl_eq st (snd (send_deletes e i ds st)) \<and> queue_eq st (snd (send_deletes e i ds st)) \<and>
   db_notes (snd (send_deletes e i ds st)) = db_notes st \<and>
   notesKey (snd (send_deletes e i ds st)) = notesKey st \<and>
   lastSync (snd (send_deletes e i ds st)) = lastSync st"
proof (induction ds arbitrary: i st)
  case Nil
  then show ?case by (simp add: ctrl_eq_def queue_eq_def)
next
  case (Cons d ds)
  show ?case
    using Cons.IH[where i = "Suc i" and st = "st\<lparr>sent := sent st @ [ReqDelete d]\<rparr>"]
    by (simp add: ctrl_eq_def queue_eq_def Let_def split: option.split abrupt.split)
qed

lemma send_deletes_result:
  "(\<exists>s n. n < length ds \<and> send_deletes e i ds st = (Inl (Parked s), st\<lparr>sent := sent st @ map ReqDelete (take (Suc n) ds)\<rparr>)) \<or>
   send_deletes e i ds st = (Inr (), st\<lparr>sent := sent st @ map ReqDelete ds\<rparr>)"
proof (induction ds arbitrary: i st)
  case Nil
  then show ?case by simp
next
  case (Cons d ds)
  let ?st1 = "st\<lparr>sent := sent st @ [ReqDelete d]\<rparr>"
  show ?case
  proof (cases "\<exists>s. wait e (ApiDelete i) = Some (Parked s)")
    case True
    then obtain s where "wait e (ApiDelete i) = Some (Parked s)" by blast
    then have "send_deletes e i (d # ds) st = (Inl (Parked s), st\<lparr>sent := sent st @ map ReqDelete (take (Suc 0) (d # ds))\<rparr>)"
      by (simp add: Let_def)
    then show ?thesis by blast
  next
    case False
    then have eq: "send_deletes e i (d # ds) st = send_deletes e (Suc i) ds ?st1"
      by (simp add: Let_def split: option.split abrupt.split)
    from Cons.IH[where i = "Suc i" and st = ?st1] show ?thesis
    proof
      assume "\<exists>s n. n < length ds \<and> send_deletes e (Suc i) ds ?st1 = (Inl (Parked s), ?st1\<lparr>sent := sent ?st1 @ map ReqDelete (take (Suc n) ds)\<rparr>)"
      then obtain s n where n: "n < length ds" and
        r: "send_deletes e (Suc i) ds ?st1 = (Inl (Parked s), ?st1\<lparr>sent := sent ?st1 @ map ReqDelete (take (Suc n) ds)\<rparr>)"
        by blast
      have "Suc n < length (d # ds)" using n by simp
      moreover have "send_deletes e i (d # ds) st = (Inl (Parked s), st\<lparr>sent := sent st @ map ReqDelete (take (Suc (Suc n)) (d # ds))\<rparr>)"
        using eq r by simp
      ultimately show ?thesis by blast
    next
      assume "send_deletes e (Suc i) ds ?st1 = (Inr (), ?st1\<lparr>sent := sent ?st1 @ map ReqDelete ds\<rparr>)"
      then show ?thesis using eq by simp
    qed
  qed
qed


lemma syncFromServer_not_thrown: "fst (syncFromServer e st) \<noteq> Inl Thrown"
  by (simp add: syncFromServer_def Let_def split: option.split abrupt.split prod.split sum.split)

lemma syncFromServer_frame:
  "ctrl_eq st (snd (syncFromServer e st)) \<and> queue_eq st (snd (syncFromServer e st)) \<and>
   sent (snd (syncFromServer e st)) =
     sent st @ [ReqGet (case lastSync st of Some t \<Rightarrow> t | None \<Rightarrow> 0)]"
proof -
  let ?st1 = "st\<lparr>sent := sent st @ [ReqGet (case lastSync st of Some t \<Rightarrow> t | None \<Rightarrow> 0)]\<rparr>"
  have k: "keeps ?st1 (snd (pull_notes e 0 (getData e) ?st1))" by (rule pull_notes_keeps)
  obtain r st2 where p: "pull_notes e 0 (getData e) ?st1 = (r, st2)" by (cases "pull_notes e 0 (getData e) ?st1")
  with k have k2: "keeps ?st1 st2" by simp
  show ?thesis
    using k2 unfolding syncFromServer_def Let_def p
    by (simp add: keeps_def ctrl_eq_def queue_eq_def split: option.split abrupt.split sum.split)
qed

lemma push_notes_frame:
  "ctrl_eq st (snd (push_notes e ns st)) \<and> queue_eq st (snd (push_notes e ns st)) \<and>
   sent (snd (push_notes e ns st)) = sent st @ [ReqPost ns] \<and>
   lastSync (snd (push_notes e ns st)) = lastSync st"
proof -
  let ?st1 = "st\<lparr>sent := sent st @ [ReqPost ns]\<rparr>"
  let ?recs = "created (postData e) @ updated (postData e)"
  obtain r st2 where p: "reconcile_pushed e 0 ?recs ?st1 = (r, st2)" by (cases "reconcile_pushed e 0 ?recs ?st1")
  have k2: "keeps ?st1 st2" using reconcile_pushed_keeps[of ?st1 e 0 ?recs] p by simp
  have k3: "keeps st2 (snd (resolve_conflicts e 0 (conflicts (postData e)) st2))" by (rule resolve_conflicts_keeps)
  show ?thesis
    using k2 k3 unfolding push_notes_def Let_def p
    by (simp add: keeps_def ctrl_eq_def queue_eq_def split: option.split sum.split)
qed


subsection \<open>The \<^verbatim>\<open>try\<close> block and the \<^verbatim>\<open>catch\<close> block\<close>

lemma try_block_empty:
  assumes "wait e QueueRead = None" and "db_syncQueue st = []"
      and "syncFromServer e st = (r0, st0)"
  shows "try_block e st =
           (case r0 of Inl a \<Rightarrow> (Inl a, st0) | Inr u \<Rightarrow> (Inr True, st0\<lparr>syncInProgress := False\<rparr>))"
  using assms by (simp add: try_block_def)

lemma try_block_nonempty:
  assumes w: "wait e QueueRead = None" and ne: "db_syncQueue st \<noteq> []"
      and q: "q = sort_key timestamp (db_syncQueue st)" and c: "c = collapse q"
      and p1: "send_deletes e 0 (deleteIds c) st = (r1, st1)"
      and p2: "(if notesToSync c \<noteq> [] then push_notes e (notesToSync c) st1
                else (Inr (), st1)) = (r2, st2)"
      and p3: "syncFromServer e
                 (st2\<lparr>db_syncQueue := bulkDelete (processedQueueIds q c) (db_syncQueue st2)\<rparr>) = (r3, st3)"
  shows "try_block e st =
           (case r1 of Inl a \<Rightarrow> (Inl a, st1) | Inr u \<Rightarrow>
             (case r2 of Inl a \<Rightarrow> (Inl a, st2) | Inr u \<Rightarrow>
               (case wait e BulkDelete of Some a \<Rightarrow> (Inl a, st2) | None \<Rightarrow>
                 (case r3 of Inl a \<Rightarrow> (Inl a, st3)
                  | Inr u \<Rightarrow> (Inr True, st3\<lparr>syncRetryDelay := 1000\<rparr>)))))"
proof -
  have qn: "sort_key timestamp (db_syncQueue st) \<noteq> []" using ne by (simp add: sort_key_Nil_iff)
  show ?thesis
  proof (cases "notesToSync c = []")
    case True
    then have "r2 = Inr ()" "st2 = st1" using p2 by simp_all
    then show ?thesis
      unfolding try_block_def Let_def using w qn p1 p3 True q c
      by (simp split: sum.split option.split)
  next
    case ns: False
    then have "push_notes e (notesToSync c) st1 = (r2, st2)" using p2 by simp
    then show ?thesis
      unfolding try_block_def Let_def using w qn p1 p3 ns q c
      by (simp split: sum.split option.split)
  qed
qed

lemma try_block_frame:
  assumes r: "try_block e st = (r, st')"
  shows "isOnline st' = isOnline st \<and> timers st' = timers st \<and> inFlight st' = inFlight st \<and>
         queueKey st' = queueKey st \<and>
         (syncInProgress st' \<longrightarrow> syncInProgress st) \<and>
         (\<forall>a. r = Inl a \<longrightarrow> syncInProgress st' = syncInProgress st \<and>
                syncRetryDelay st' = syncRetryDelay st) \<and>
         (r = Inl Thrown \<longrightarrow> db_syncQueue st' = db_syncQueue st) \<and>
         (\<forall>b. r = Inr b \<longrightarrow> b \<and> syncInProgress st' = (syncInProgress st \<and> db_syncQueue st \<noteq> []) \<and>
            syncRetryDelay st' = (if db_syncQueue st = [] then syncRetryDelay st else 1000) \<and>
            db_syncQueue st' =
              bulkDelete (processedQueueIds (sort_key timestamp (db_syncQueue st))
                            (collapse (sort_key timestamp (db_syncQueue st))))
                (db_syncQueue st))"
proof -
  let ?q = "sort_key timestamp (db_syncQueue st)"
  let ?c = "collapse ?q"
  have qe: "?q = [] \<longleftrightarrow> db_syncQueue st = []" by (rule sort_key_Nil_iff)
  obtain r0 st0 where p0: "syncFromServer e st = (r0, st0)" by (cases "syncFromServer e st")
  obtain r1 st1 where p1: "send_deletes e 0 (deleteIds ?c) st = (r1, st1)"
    by (cases "send_deletes e 0 (deleteIds ?c) st")
  obtain r2 st2 where p2: "(if notesToSync ?c \<noteq> [] then push_notes e (notesToSync ?c) st1
                         else (Inr (), st1)) = (r2, st2)"
    by (cases "(if notesToSync ?c \<noteq> [] then push_notes e (notesToSync ?c) st1 else (Inr (), st1))")
  let ?st2' = "st2\<lparr>db_syncQueue := bulkDelete (processedQueueIds ?q ?c) (db_syncQueue st2)\<rparr>"
  obtain r3 st3 where p3: "syncFromServer e ?st2' = (r3, st3)" by (cases "syncFromServer e ?st2'")
  have f0: "ctrl_eq st st0 \<and> queue_eq st st0" and n0: "r0 \<noteq> Inl Thrown"
    using syncFromServer_frame[of st e] syncFromServer_not_thrown[of e st] p0 by simp_all
  have f1: "ctrl_eq st st1 \<and> queue_eq st st1" and n1: "r1 \<noteq> Inl Thrown"
    using send_deletes_frame[of st e 0 "deleteIds ?c"] send_deletes_result[of "deleteIds ?c" e 0 st] p1 by auto
  have f2: "ctrl_eq st1 st2 \<and> queue_eq st1 st2"
    using push_notes_frame[of st1 e "notesToSync ?c"] p2
    by (cases "notesToSync ?c \<noteq> []") (auto simp: ctrl_eq_def queue_eq_def)
  have f3: "ctrl_eq ?st2' st3 \<and> queue_eq ?st2' st3" and n3: "r3 \<noteq> Inl Thrown"
    using syncFromServer_frame[of ?st2' e] syncFromServer_not_thrown[of e ?st2'] p3 by simp_all
  show ?thesis
  proof (cases "wait e QueueRead")
    case (Some a)
    then show ?thesis using r by (auto simp: try_block_def)
  next
    case None
    show ?thesis
    proof (cases "db_syncQueue st = []")
      case True
      then have "try_block e st = (case r0 of Inl a \<Rightarrow> (Inl a, st0) | Inr u \<Rightarrow> (Inr True, st0\<lparr>syncInProgress := False\<rparr>))"
        using None qe p0 by (simp add: try_block_def)
      then show ?thesis using r f0 n0 True
        by (cases r0) (auto simp: ctrl_eq_def queue_eq_def bulkDelete_def)
    next
      case False
      then have ne: "?q \<noteq> []" using qe by simp
      have "try_block e st =
              (case r1 of Inl a \<Rightarrow> (Inl a, st1) | Inr u \<Rightarrow>
                (case r2 of Inl a \<Rightarrow> (Inl a, st2) | Inr u \<Rightarrow>
                  (case wait e BulkDelete of Some a \<Rightarrow> (Inl a, st2) | None \<Rightarrow>
                    (case r3 of Inl a \<Rightarrow> (Inl a, st3) | Inr u \<Rightarrow> (Inr True, st3\<lparr>syncRetryDelay := 1000\<rparr>)))))"
      proof (cases "notesToSync ?c = []")
        case True
        then have "r2 = Inr ()" "st2 = st1" using p2 by simp_all
        then show ?thesis
          unfolding try_block_def Let_def using None ne p1 p3 True
          by (simp split: sum.split option.split)
      next
        case ns: False
        then have "push_notes e (notesToSync ?c) st1 = (r2, st2)" using p2 by simp
        then show ?thesis
          unfolding try_block_def Let_def using None ne p1 p3 ns
          by (simp split: sum.split option.split)
      qed
      then show ?thesis using r f1 f2 f3 n1 n3 False
        by (auto simp: ctrl_eq_def queue_eq_def split: sum.splits option.splits)
    qed
  qed
qed


lemma bump_retries_frame:
  "ctrl_eq st (snd (bump_retries e i items st)) \<and>
   queueKey (snd (bump_retries e i items st)) = queueKey st \<and>
   db_notes (snd (bump_retries e i items st)) = db_notes st \<and>
   notesKey (snd (bump_retries e i items st)) = notesKey st \<and>
   sent (snd (bump_retries e i items st)) = sent st \<and>
   lastSync (snd (bump_retries e i items st)) = lastSync st \<and>
   map e_id (db_syncQueue (snd (bump_retries e i items st))) = map e_id (db_syncQueue st)"
proof (induction items arbitrary: i st)
  case Nil
  then show ?case by (simp add: ctrl_eq_def)
next
  case (Cons item rest)
  let ?st1 = "st\<lparr>db_syncQueue :=
                  map (\<lambda>q. if e_id q = e_id item then q\<lparr>retries := retries item + 1\<rparr> else q)
                    (db_syncQueue st)\<rparr>"
  have ids: "map e_id (db_syncQueue ?st1) = map e_id (db_syncQueue st)"
    by (simp add: comp_def if_distrib cong: if_cong)
  show ?case
  proof (cases "wait e (RetryWrite i)")
    case None
    then show ?thesis using Cons.IH[where i = "Suc i" and st = ?st1] ids
      by (simp add: ctrl_eq_def)
  next
    case (Some a)
    then show ?thesis by (simp add: ctrl_eq_def)
  qed
qed

lemma bump_retries_done:
  assumes "fst (bump_retries e i items st) = Inr u"
      and "distinct (map e_id (dn @ items))"
      and "db_syncQueue st = map bump dn @ items"
  shows "db_syncQueue (snd (bump_retries e i items st)) = map bump (dn @ items)"
  using assms
proof (induction items arbitrary: i st dn)
  case Nil
  then show ?case by simp
next
  case (Cons item rest)
  let ?st1 = "st\<lparr>db_syncQueue :=
                  map (\<lambda>q. if e_id q = e_id item then q\<lparr>retries := retries item + 1\<rparr> else q)
                    (db_syncQueue st)\<rparr>"
  have w: "wait e (RetryWrite i) = None"
    using Cons.prems(1) by (cases "wait e (RetryWrite i)") simp_all
  have nd: "e_id item \<notin> e_id ` set dn" "e_id item \<notin> e_id ` set rest"
    using Cons.prems(2) by auto
  have d1: "\<forall>q\<in>set dn. e_id (bump q) \<noteq> e_id item"
  proof
    fix q assume "q \<in> set dn"
    then have "e_id q \<in> e_id ` set dn" by (rule imageI)
    with nd(1) have "e_id q \<noteq> e_id item" by metis
    then show "e_id (bump q) \<noteq> e_id item" by (simp add: bump_def)
  qed
  have d2: "\<forall>q\<in>set rest. e_id q \<noteq> e_id item"
  proof
    fix q assume "q \<in> set rest"
    then have "e_id q \<in> e_id ` set rest" by (rule imageI)
    with nd(2) show "e_id q \<noteq> e_id item" by metis
  qed
  have m1: "map (\<lambda>q. if e_id q = e_id item then q\<lparr>retries := retries item + 1\<rparr> else q) (map bump dn) = map bump dn"
    using d1 by (induction dn) simp_all
  have m2: "map (\<lambda>q. if e_id q = e_id item then q\<lparr>retries := retries item + 1\<rparr> else q) rest = rest"
    using d2 by (induction rest) simp_all
  let ?F = "\<lambda>q. if e_id q = e_id item then q\<lparr>retries := retries item + 1\<rparr> else q"
  have "db_syncQueue ?st1 = map ?F (map bump dn) @ ?F item # map ?F rest"
    using Cons.prems(3) by simp
  also have "\<dots> = map bump dn @ ?F item # rest" unfolding m1 m2 ..
  also have "\<dots> = map bump (dn @ [item]) @ rest" by (simp add: bump_def)
  finally have tbl: "db_syncQueue ?st1 = map bump (dn @ [item]) @ rest" .
  have "db_syncQueue (snd (bump_retries e (Suc i) rest ?st1)) = map bump ((dn @ [item]) @ rest)"
  proof (rule Cons.IH)
    show "fst (bump_retries e (Suc i) rest ?st1) = Inr u" using Cons.prems(1) w by simp
    show "distinct (map e_id ((dn @ [item]) @ rest))" using Cons.prems(2) by simp
    show "db_syncQueue ?st1 = map bump (dn @ [item]) @ rest" by (rule tbl)
  qed
  then show ?case using w by simp
qed

lemma catch_block_frame:
  assumes r: "catch_block e st = (r, st')"
  shows "syncRetryDelay st' = min (syncRetryDelay st * 2) MAX_RETRY_DELAY \<and>
         isOnline st' = isOnline st \<and> syncInProgress st' = syncInProgress st \<and>
         inFlight st' = inFlight st \<and> queueKey st' = queueKey st \<and>
         db_notes st' = db_notes st \<and> notesKey st' = notesKey st \<and> sent st' = sent st \<and>
         lastSync st' = lastSync st \<and>
         map e_id (db_syncQueue st') = map e_id (db_syncQueue st) \<and>
         (\<forall>a. r = Inl a \<longrightarrow> timers st' = timers st) \<and>
         (\<forall>b. r = Inr b \<longrightarrow> \<not> b \<and> timers st' = timers st @ [syncRetryDelay st'] \<and>
            (distinct (map e_id (db_syncQueue st)) \<longrightarrow> db_syncQueue st' = map bump (db_syncQueue st)))"
proof -
  let ?st1 = "st\<lparr>syncRetryDelay := min (syncRetryDelay st * 2) MAX_RETRY_DELAY\<rparr>"
  obtain r1 st2 where p: "bump_retries e 0 (db_syncQueue ?st1) ?st1 = (r1, st2)"
    by (cases "bump_retries e 0 (db_syncQueue ?st1) ?st1")
  have f: "ctrl_eq ?st1 st2 \<and> queueKey st2 = queueKey ?st1 \<and> db_notes st2 = db_notes ?st1 \<and>
     notesKey st2 = notesKey ?st1 \<and> sent st2 = sent ?st1 \<and> lastSync st2 = lastSync ?st1 \<and>
     map e_id (db_syncQueue st2) = map e_id (db_syncQueue ?st1)"
    using bump_retries_frame[of ?st1 e 0 "db_syncQueue ?st1"] p by simp
  have d: "db_syncQueue st2 = map bump (db_syncQueue st)"
    if "r1 = Inr u" "distinct (map e_id (db_syncQueue st))" for u
    using bump_retries_done[of e 0 "db_syncQueue ?st1" ?st1 u "[]"] p that by simp
  show ?thesis
  proof (cases "wait e RetryRead")
    case (Some a)
    then show ?thesis using r by (auto simp: catch_block_def Let_def)
  next
    case None
    then have "catch_block e st = (case r1 of Inl a \<Rightarrow> (Inl a, st2) | Inr u \<Rightarrow> (Inr False, st2\<lparr>timers := timers st2 @ [syncRetryDelay st2]\<rparr>))"
      using p by (simp add: catch_block_def Let_def split: sum.split)
    then show ?thesis using r f d
      by (cases r1) (auto simp: ctrl_eq_def)
  qed
qed


lemma try_block_sent_raw:
  assumes r: "try_block e st = (r, st')"
  shows "\<exists>n p g. n \<le> length (deleteIds (collapse (sort_key timestamp (db_syncQueue st)))) \<and>
           sent st' = sent st @
             map ReqDelete (take n (deleteIds (collapse (sort_key timestamp (db_syncQueue st))))) @ p @ g \<and>
           (p = [] \<or>
            (p = [ReqPost (notesToSync (collapse (sort_key timestamp (db_syncQueue st))))] \<and>
             notesToSync (collapse (sort_key timestamp (db_syncQueue st))) \<noteq> [] \<and>
             n = length (deleteIds (collapse (sort_key timestamp (db_syncQueue st)))))) \<and>
           (g = [] \<or> g = [ReqGet (case lastSync st of Some t \<Rightarrow> t | None \<Rightarrow> 0)]) \<and>
           (r = Inr True \<longrightarrow>
              n = length (deleteIds (collapse (sort_key timestamp (db_syncQueue st)))) \<and>
              p = (if notesToSync (collapse (sort_key timestamp (db_syncQueue st))) \<noteq> []
                   then [ReqPost (notesToSync (collapse (sort_key timestamp (db_syncQueue st))))] else []) \<and>
              g = [ReqGet (case lastSync st of Some t \<Rightarrow> t | None \<Rightarrow> 0)])"
    (is "\<exists>n p g. ?P n p g")
proof -
  let ?q = "sort_key timestamp (db_syncQueue st)"
  let ?c = "collapse ?q"
  let ?w = "case lastSync st of Some t \<Rightarrow> t | None \<Rightarrow> 0"
  show ?thesis
  proof (cases "wait e QueueRead")
    case (Some a)
    then have "st' = st" "r = Inl a" using r by (auto simp: try_block_def)
    then have "?P 0 [] []" by simp
    then show ?thesis by blast
  next
    case None
    show ?thesis
    proof (cases "db_syncQueue st = []")
      case True
      obtain r0 st0 where p0: "syncFromServer e st = (r0, st0)" by (cases "syncFromServer e st")
      have s0: "sent st0 = sent st @ [ReqGet ?w]" using syncFromServer_frame[of st e] p0 by simp
      have "sent st' = sent st @ [ReqGet ?w]"
        using try_block_empty[OF None True p0] r s0 by (cases r0) auto
      moreover have "notesToSync ?c = []" "deleteIds ?c = []" using True by (simp_all add: collapse_def)
      ultimately have "?P 0 [] [ReqGet ?w]" by simp
      then show ?thesis by blast
    next
      case False
      obtain r1 st1 where p1: "send_deletes e 0 (deleteIds ?c) st = (r1, st1)"
        by (cases "send_deletes e 0 (deleteIds ?c) st")
      obtain r2 st2 where p2: "(if notesToSync ?c \<noteq> [] then push_notes e (notesToSync ?c) st1
                         else (Inr (), st1)) = (r2, st2)"
        by (cases "(if notesToSync ?c \<noteq> [] then push_notes e (notesToSync ?c) st1 else (Inr (), st1))")
      let ?st2' = "st2\<lparr>db_syncQueue := bulkDelete (processedQueueIds ?q ?c) (db_syncQueue st2)\<rparr>"
      obtain r3 st3 where p3: "syncFromServer e ?st2' = (r3, st3)" by (cases "syncFromServer e ?st2'")
      note u = try_block_nonempty[OF None False refl refl p1 p2 p3]
      have l1: "lastSync st1 = lastSync st"
        using send_deletes_frame[of st e 0 "deleteIds ?c"] p1 by simp
      have s2: "sent st2 = sent st1 @ (if notesToSync ?c \<noteq> [] then [ReqPost (notesToSync ?c)] else [])"
        and l2: "lastSync st2 = lastSync st1"
        using push_notes_frame[of st1 e "notesToSync ?c"] p2
        by (auto split: if_splits)
      have s3: "sent st3 = sent st2 @ [ReqGet ?w]"
        using syncFromServer_frame[of ?st2' e] p3 l1 l2 by simp
      from send_deletes_result[of "deleteIds ?c" e 0 st]
      show ?thesis
      proof
        assume "\<exists>s n. n < length (deleteIds ?c) \<and> send_deletes e 0 (deleteIds ?c) st =
                  (Inl (Parked s), st\<lparr>sent := sent st @ map ReqDelete (take (Suc n) (deleteIds ?c))\<rparr>)"
        then obtain s n where n: "n < length (deleteIds ?c)"
          and "send_deletes e 0 (deleteIds ?c) st =
                  (Inl (Parked s), st\<lparr>sent := sent st @ map ReqDelete (take (Suc n) (deleteIds ?c))\<rparr>)"
          by blast
        then have "r1 = Inl (Parked s)" "st1 = st\<lparr>sent := sent st @ map ReqDelete (take (Suc n) (deleteIds ?c))\<rparr>"
          using p1 by simp_all
        then have "r = Inl (Parked s)" "sent st' = sent st @ map ReqDelete (take (Suc n) (deleteIds ?c))"
          using u r by simp_all
        then have "?P (Suc n) [] []" using n by simp
        then show ?thesis by blast
      next
        assume "send_deletes e 0 (deleteIds ?c) st = (Inr (), st\<lparr>sent := sent st @ map ReqDelete (deleteIds ?c)\<rparr>)"
        then have r1: "r1 = Inr ()" and s1: "sent st1 = sent st @ map ReqDelete (deleteIds ?c)"
          using p1 by auto
        let ?n = "length (deleteIds ?c)"
        let ?p = "if notesToSync ?c \<noteq> [] then [ReqPost (notesToSync ?c)] else []"
        have pp: "?p = [] \<or> (?p = [ReqPost (notesToSync ?c)] \<and> notesToSync ?c \<noteq> [] \<and> ?n = ?n)" by simp
        have "(sent st' = sent st2 \<and> r \<noteq> Inr True) \<or> sent st' = sent st3"
          using u r r1 by (auto split: sum.splits option.splits)
        then show ?thesis
        proof
          assume a: "sent st' = sent st2 \<and> r \<noteq> Inr True"
          have "?P ?n ?p []" using a s1 s2 by simp
          then show ?thesis by blast
        next
          assume a: "sent st' = sent st3"
          have "?P ?n ?p [ReqGet ?w]" using a s1 s2 s3 by simp
          then show ?thesis by blast
        qed
      qed
    qed
  qed
qed

lemma try_block_sent:
  assumes r: "try_block e st = (r, st')"
      and c: "c = collapse (sort_key timestamp (db_syncQueue st))"
      and w: "w = (case lastSync st of Some t \<Rightarrow> t | None \<Rightarrow> 0)"
  shows "\<exists>n p g. n \<le> length (deleteIds c) \<and>
           sent st' = sent st @ map ReqDelete (take n (deleteIds c)) @ p @ g \<and>
           (p = [] \<or> (p = [ReqPost (notesToSync c)] \<and> notesToSync c \<noteq> [] \<and> n = length (deleteIds c))) \<and>
           (g = [] \<or> g = [ReqGet w]) \<and>
           (r = Inr True \<longrightarrow>
              n = length (deleteIds c) \<and>
              p = (if notesToSync c \<noteq> [] then [ReqPost (notesToSync c)] else []) \<and>
              g = [ReqGet w])"
  using try_block_sent_raw[OF r] unfolding c w .

subsection \<open>A whole activation\<close>

lemma cycle_unfold:
  assumes t: "try_block e st = (rt, st1)" and c: "catch_block e st1 = (rc, st2)"
  shows "cycle e st =
     (case rt of
        Inl (Parked s) \<Rightarrow> (Inl (Parked s), st1)
      | Inl Thrown \<Rightarrow>
          (case rc of
             Inl (Parked s) \<Rightarrow> (Inl (Parked s), st2)
           | Inl Thrown \<Rightarrow> (Inl Thrown, st2\<lparr>syncInProgress := False, inFlight := inFlight st2 - 1\<rparr>)
           | Inr b \<Rightarrow> (Inr b, st2\<lparr>syncInProgress := False, inFlight := inFlight st2 - 1\<rparr>))
      | Inr b \<Rightarrow> (Inr b, st1\<lparr>syncInProgress := False, inFlight := inFlight st1 - 1\<rparr>))"
  using t c
  by (simp add: cycle_def finally_block_def split: sum.split abrupt.split)

lemma cycle_sent: "sent (snd (cycle e st)) = sent (snd (try_block e st))"
proof -
  obtain rt st1 where t: "try_block e st = (rt, st1)" by (cases "try_block e st")
  obtain rc st2 where c: "catch_block e st1 = (rc, st2)" by (cases "catch_block e st1")
  have "sent st2 = sent st1" using catch_block_frame[OF c] by simp
  then show ?thesis
    unfolding cycle_unfold[OF t c] using t
    by (simp split: sum.split abrupt.split)
qed

lemma triggerSync_started:
  "isOnline st \<Longrightarrow> \<not> syncInProgress st \<Longrightarrow>
   triggerSync e st = cycle e (st\<lparr>syncInProgress := True, inFlight := inFlight st + 1\<rparr>)"
  by (simp add: triggerSync_def invoke_def)

lemma posts_append: "posts (xs @ ys) = posts xs @ posts ys"
  by (induction xs rule: posts.induct) simp_all

lemma posts_deletes: "posts (map ReqDelete ds) = []"
  by (induction ds) simp_all


lemma cycle_true:
  assumes cy: "cycle e st = (Inr True, st')" and tb: "try_block e st = (rt, st1)"
  shows "rt = Inr True"
proof -
  obtain rc st2 where cb: "catch_block e st1 = (rc, st2)" by (cases "catch_block e st1")
  show ?thesis
  proof (cases rt)
    case (Inr b)
    then show ?thesis using cy unfolding cycle_unfold[OF tb cb] by auto
  next
    case (Inl a)
    show ?thesis
    proof (cases a)
      case (Parked s)
      then show ?thesis using Inl cy unfolding cycle_unfold[OF tb cb] by auto
    next
      case Thrown
      have nb: "\<forall>b. rc = Inr b \<longrightarrow> \<not> b" using catch_block_frame[OF cb] by blast
      show ?thesis
      proof (cases rc)
        case rcl: (Inl a')
        then show ?thesis using Inl Thrown cy unfolding cycle_unfold[OF tb cb]
          by (cases a') auto
      next
        case rcr: (Inr b)
        then show ?thesis using Inl Thrown cy nb unfolding cycle_unfold[OF tb cb]
          by auto
      qed
    qed
  qed
qed

lemma triggerSync_sent:
  assumes on: "isOnline st" and idle: "\<not> syncInProgress st"
      and t: "triggerSync e st = (r, st')"
      and c: "c = collapse (sort_key timestamp (db_syncQueue st))"
      and w: "w = (case lastSync st of Some t \<Rightarrow> t | None \<Rightarrow> 0)"
  shows "\<exists>n p g. n \<le> length (deleteIds c) \<and>
           sent st' = sent st @ map ReqDelete (take n (deleteIds c)) @ p @ g \<and>
           (p = [] \<or> (p = [ReqPost (notesToSync c)] \<and> notesToSync c \<noteq> [] \<and> n = length (deleteIds c))) \<and>
           (g = [] \<or> g = [ReqGet w]) \<and>
           (r = Inr True \<longrightarrow>
              n = length (deleteIds c) \<and>
              p = (if notesToSync c \<noteq> [] then [ReqPost (notesToSync c)] else []) \<and>
              g = [ReqGet w])"
proof -
  let ?st0 = "st\<lparr>syncInProgress := True, inFlight := inFlight st + 1\<rparr>"
  obtain rt st1 where tb: "try_block e ?st0 = (rt, st1)" by (cases "try_block e ?st0")
  have cy: "cycle e ?st0 = (r, st')" using triggerSync_started[OF on idle, of e] t by simp
  have s: "sent st' = sent st1" using cycle_sent[of e ?st0] cy tb by simp
  have rr: "r = Inr True \<longrightarrow> rt = Inr True" using cycle_true[OF _ tb] cy by blast
  have ceq: "c = collapse (sort_key timestamp (db_syncQueue ?st0))" using c by simp
  have weq: "w = (case lastSync ?st0 of Some t \<Rightarrow> t | None \<Rightarrow> 0)" using w by simp
  from try_block_sent[OF tb ceq weq] obtain n p g where
    f: "n \<le> length (deleteIds c) \<and>
        sent st1 = sent ?st0 @ map ReqDelete (take n (deleteIds c)) @ p @ g \<and>
        (p = [] \<or> (p = [ReqPost (notesToSync c)] \<and> notesToSync c \<noteq> [] \<and> n = length (deleteIds c))) \<and>
        (g = [] \<or> g = [ReqGet w]) \<and>
        (rt = Inr True \<longrightarrow>
           n = length (deleteIds c) \<and>
           p = (if notesToSync c \<noteq> [] then [ReqPost (notesToSync c)] else []) \<and>
           g = [ReqGet w])"
    by blast
  have f1: "n \<le> length (deleteIds c)" using f by blast
  have f2: "sent st' = sent st @ map ReqDelete (take n (deleteIds c)) @ p @ g" using f s by simp
  have f3: "p = [] \<or> (p = [ReqPost (notesToSync c)] \<and> notesToSync c \<noteq> [] \<and> n = length (deleteIds c))"
    using f by blast
  have f4: "g = [] \<or> g = [ReqGet w]" using f by blast
  have f5: "r = Inr True \<longrightarrow>
           n = length (deleteIds c) \<and>
           p = (if notesToSync c \<noteq> [] then [ReqPost (notesToSync c)] else []) \<and>
           g = [ReqGet w]" using f rr by blast
  show ?thesis
    apply (rule exI[of _ n], rule exI[of _ p], rule exI[of _ g])
    using f1 f2 f3 f4 f5 by - (intro conjI; assumption)
qed

lemma triggerSync_posts:
  assumes on: "isOnline st" and idle: "\<not> syncInProgress st"
      and t: "triggerSync e st = (r, st')"
      and c: "c = collapse (sort_key timestamp (db_syncQueue st))"
  shows "(posts (sent st') = posts (sent st) \<or>
          posts (sent st') = posts (sent st) @ [notesToSync c]) \<and>
         (r = Inr True \<and> notesToSync c \<noteq> [] \<longrightarrow>
          posts (sent st') = posts (sent st) @ [notesToSync c])"
proof -
  from triggerSync_sent[OF on idle t c refl] obtain n p g where
    a: "sent st' = sent st @ map ReqDelete (take n (deleteIds c)) @ p @ g"
    and b: "p = [] \<or> (p = [ReqPost (notesToSync c)] \<and> notesToSync c \<noteq> [] \<and> n = length (deleteIds c))"
    and g: "g = [] \<or> g = [ReqGet (case lastSync st of Some t \<Rightarrow> t | None \<Rightarrow> 0)]"
    and d: "r = Inr True \<longrightarrow>
              n = length (deleteIds c) \<and>
              p = (if notesToSync c \<noteq> [] then [ReqPost (notesToSync c)] else []) \<and>
              g = [ReqGet (case lastSync st of Some t \<Rightarrow> t | None \<Rightarrow> 0)]"
    by blast
  have pg: "posts g = []" using g by auto
  have e: "posts (sent st') = posts (sent st) @ posts p"
    using a pg by (simp add: posts_append posts_deletes)
  show ?thesis
  proof (cases "p = []")
    case True
    then show ?thesis using e d by (auto split: if_splits)
  next
    case False
    then have "p = [ReqPost (notesToSync c)]" using b by simp
    then show ?thesis using e by simp
  qed
qed

lemma process_queue_deletes:
  "map Some (deleteIds (process_queue queue items acc)) =
     map Some (deleteIds acc) @
     map (\<lambda>q. p_id (data q)) (filter (\<lambda>q. action q = ''delete'' \<and> truthy (p_id (data q))) items)"
proof (induction items arbitrary: acc)
  case Nil
  then show ?case by simp
next
  case (Cons item rest)
  show ?case
  proof (cases "action item = ''delete'' \<and> truthy (p_id (data item))")
    case True
    then obtain i where i: "p_id (data item) = Some i" by (auto simp: truthy_def split: option.splits)
    have ti: "truthy (Some i)" and ai: "action item = ''delete''" using True i by simp_all
    show ?thesis
      using Cons.IH[of "acc\<lparr>deleteIds := deleteIds acc @ [case p_id (data item) of Some i \<Rightarrow> i | None \<Rightarrow> []]\<rparr>"] i
      by (simp add: ti ai)
  next
    case False
    show ?thesis
    proof (cases "latest queue (noteId item)")
      case None
      then show ?thesis using Cons.IH[of acc] by (simp add: False)
    next
      case (Some l)
      then show ?thesis
        using Cons.IH[of acc]
          Cons.IH[of "acc\<lparr>processedIds := processedIds acc @ [noteId item],
                    notesToSync := notesToSync acc @ [data l]\<rparr>"]
        by (simp add: False)
    qed
  qed
qed

lemma collapse_deletes:
  "map Some (deleteIds (collapse queue)) =
     map (\<lambda>q. p_id (data q)) (filter (\<lambda>q. action q = ''delete'' \<and> truthy (p_id (data q))) queue)"
  unfolding collapse_def using process_queue_deletes[of queue queue] by simp


subsection \<open>Single flight\<close>

lemma cycle_flag:
  assumes cy: "cycle e st = (r, st')"
  shows "isOnline st' = isOnline st \<and>
         (\<forall>s. r = Inl (Parked s) \<longrightarrow> syncInProgress st' = syncInProgress st \<and> inFlight st' = inFlight st) \<and>
         ((\<forall>s. r \<noteq> Inl (Parked s)) \<longrightarrow> \<not> syncInProgress st' \<and> inFlight st' = inFlight st - 1)"
proof -
  obtain rt st1 where tb: "try_block e st = (rt, st1)" by (cases "try_block e st")
  obtain rc st2 where cb: "catch_block e st1 = (rc, st2)" by (cases "catch_block e st1")
  note f1 = try_block_frame[OF tb]
  note f2 = catch_block_frame[OF cb]
  have o1: "isOnline st1 = isOnline st" and i1: "inFlight st1 = inFlight st"
    and p1: "\<forall>a. rt = Inl a \<longrightarrow> syncInProgress st1 = syncInProgress st"
    using f1 by blast+
  have o2: "isOnline st2 = isOnline st1" and i2: "inFlight st2 = inFlight st1"
    and p2: "syncInProgress st2 = syncInProgress st1"
    using f2 by blast+
  show ?thesis
  proof (cases rt)
    case (Inr b)
    then show ?thesis using cy o1 i1 unfolding cycle_unfold[OF tb cb] by auto
  next
    case (Inl a)
    show ?thesis
    proof (cases a)
      case (Parked s)
      then show ?thesis using Inl cy o1 i1 p1 unfolding cycle_unfold[OF tb cb] by auto
    next
      case Thrown
      show ?thesis
      proof (cases rc)
        case rcl: (Inl a')
        then show ?thesis using Inl Thrown cy o1 i1 p1 o2 i2 p2 unfolding cycle_unfold[OF tb cb]
          by (cases a') auto
      next
        case rcr: (Inr b)
        then show ?thesis using Inl Thrown cy o1 i1 o2 i2 unfolding cycle_unfold[OF tb cb]
          by auto
      qed
    qed
  qed
qed

lemma invoke_single_flight: "single_flight st \<Longrightarrow> single_flight (snd (invoke st))"
  by (auto simp: single_flight_def invoke_def)

lemma step_single_flight:
  assumes "single_flight st"
  shows "single_flight (step ev st)"
proof (cases ev)
  case Call
  then show ?thesis using assms by (simp add: invoke_single_flight)
next
  case (Settle e)
  obtain r st' where cy: "cycle e st = (r, st')" by (cases "cycle e st")
  note f = cycle_flag[OF cy]
  show ?thesis
  proof (cases "inFlight st = 0")
    case True
    then show ?thesis using Settle assms by simp
  next
    case False
    then have one: "inFlight st = 1" using assms by (simp add: single_flight_def)
    show ?thesis
    proof (cases "\<exists>s. r = Inl (Parked s)")
      case True
      then show ?thesis using Settle assms cy False by auto
    next
      case np: False
      then have "\<not> syncInProgress st' \<and> inFlight st' = 0" using f one by simp
      then have "single_flight st'" by (simp add: single_flight_def)
      moreover have "step ev st = st'" using Settle False cy np
        by (auto split: sum.splits abrupt.splits)
      ultimately show ?thesis by simp
    qed
  qed
next
  case Online
  have "single_flight (st\<lparr>isOnline := True, syncRetryDelay := 1000\<rparr>)"
    using assms by (simp add: single_flight_def)
  then show ?thesis using Online by (simp add: invoke_single_flight)
next
  case Offline
  then show ?thesis using assms by (simp add: single_flight_def)
next
  case (Enqueue e k a d)
  have q: "single_flight (queue_add k a d (now e) st)"
    using assms by (simp add: single_flight_def queue_add_def)
  show ?thesis using Enqueue assms q invoke_single_flight[OF q]
    by (simp add: addToSyncQueue_def Let_def split: option.split abrupt.split)
next
  case RetryTimer
  show ?thesis
  proof (cases "timers st")
    case Nil
    then show ?thesis using RetryTimer assms by simp
  next
    case (Cons t ts)
    have q: "single_flight (st\<lparr>timers := ts\<rparr>)" using assms by (simp add: single_flight_def)
    show ?thesis using RetryTimer Cons q invoke_single_flight[OF q] by simp
  qed
next
  case PeriodicTimer
  then show ?thesis using assms by (simp add: invoke_single_flight)
qed

lemma run_single_flight: "single_flight st \<Longrightarrow> single_flight (run evs st)"
  by (induction evs arbitrary: st) (simp_all add: step_single_flight)


subsection \<open>Evaluating the model on the sample states\<close>

lemmas model_defs = triggerSync_def invoke_def cycle_def finally_block_def try_block_def catch_block_def
  push_notes_def syncFromServer_def wait_def collapse_def latest_def truthy_def processedQueueIds_def
  bulkDelete_def MAX_RETRY_DELAY_def addToSyncQueue_def queue_add_def

lemmas sample_defs = st_idle_def env_ok_def env_reject_def env_pending_def update_a1_def update_a2_def
  delete_a_def payload_a1_def payload_a2_def server_note_a_def local_note_a_def srv_ok_def

lemmas sanitize_defs = sanitizeBody_def sanitizeObject_def sanitizeString_def trim_def whiteSpace_def
  match_javascript_def match_handler_def toLower_def wordChar_def

lemmas html_defs = payload_html_def payload_older_def update_html_def update_older_def
  local_note_html_def server_note_html_def st_queued_def env_answering_def

subsection \<open>Outcomes of a cycle\<close>

lemma send_deletes_settled:
  assumes "\<forall>i. settle e (ApiDelete i) \<noteq> Pending"
  shows "send_deletes e i ds st = (Inr (), st\<lparr>sent := sent st @ map ReqDelete ds\<rparr>)"
proof (induction ds arbitrary: i st)
  case Nil
  then show ?case by simp
next
  case (Cons d ds)
  have "settle e (ApiDelete i) \<noteq> Pending" using assms by blast
  then have w: "wait e (ApiDelete i) = None \<or> wait e (ApiDelete i) = Some Thrown"
    by (cases "settle e (ApiDelete i)") (simp_all add: wait_def)
  then show ?case
    using Cons.IH[where i = "Suc i" and st = "st\<lparr>sent := sent st @ [ReqDelete d]\<rparr>"]
    by (auto simp: Let_def)
qed

lemma bump_retries_settled:
  assumes "\<forall>i. settle e (RetryWrite i) = Resolves"
  shows "fst (bump_retries e i items st) = Inr ()"
proof (induction items arbitrary: i st)
  case Nil
  then show ?case by simp
next
  case (Cons item rest)
  have "wait e (RetryWrite i) = None" using assms by (simp add: wait_def)
  then show ?case using Cons.IH by simp
qed

lemma processedIds_iff:
  "k \<in> set (processedIds (collapse queue)) \<longleftrightarrow>
     latest queue k \<noteq> None \<and>
     (\<exists>x\<in>set queue. noteId x = k \<and> \<not> (action x = ''delete'' \<and> truthy (p_id (data x))))"
proof
  assume k: "k \<in> set (processedIds (collapse queue))"
  have al: "map Some (notesToSync (collapse queue)) =
      map (\<lambda>k. map_option data (latest queue k)) (processedIds (collapse queue))"
    using collapse_aligned[of queue] by simp
  have "map_option data (latest queue k) \<in> set (map (\<lambda>k. map_option data (latest queue k)) (processedIds (collapse queue)))"
    using k by simp
  then have "map_option data (latest queue k) \<in> set (map Some (notesToSync (collapse queue)))"
    using al by simp
  then have l: "latest queue k \<noteq> None" by auto
  then have "\<exists>x\<in>set queue. noteId x = k \<and> action x \<noteq> ''delete''"
    unfolding latest_None by simp
  then obtain x where "x \<in> set queue" "noteId x = k" "action x \<noteq> ''delete''"
    by (elim bexE conjE)
  then show "latest queue k \<noteq> None \<and>
     (\<exists>x\<in>set queue. noteId x = k \<and> \<not> (action x = ''delete'' \<and> truthy (p_id (data x))))"
    using l by blast
next
  assume a: "latest queue k \<noteq> None \<and>
     (\<exists>x\<in>set queue. noteId x = k \<and> \<not> (action x = ''delete'' \<and> truthy (p_id (data x))))"
  then obtain x where x: "x \<in> set queue" "noteId x = k"
      "\<not> (action x = ''delete'' \<and> truthy (p_id (data x)))" by blast
  have "noteId x \<in> set (processedIds (collapse queue))"
    unfolding collapse_def using x a by (intro process_queue_covers) simp_all
  then show "k \<in> set (processedIds (collapse queue))" using x by simp
qed

lemma map_filter_mem: "a \<in> set (map f (filter P xs)) \<longleftrightarrow> (\<exists>y\<in>set xs. P y \<and> f y = a)"
  by (induction xs) auto

lemma deleteIds_iff:
  "i \<in> set (deleteIds (collapse queue)) \<longleftrightarrow>
     (\<exists>x\<in>set queue. action x = ''delete'' \<and> truthy (p_id (data x)) \<and> p_id (data x) = Some i)"
proof -
  have "i \<in> set (deleteIds (collapse queue)) \<longleftrightarrow> Some i \<in> set (map Some (deleteIds (collapse queue)))"
    by auto
  also have "\<dots> \<longleftrightarrow> Some i \<in> set (map (\<lambda>q. p_id (data q))
        (filter (\<lambda>q. action q = ''delete'' \<and> truthy (p_id (data q))) queue))"
    unfolding collapse_deletes ..
  also have "\<dots> \<longleftrightarrow> (\<exists>x\<in>set queue. (action x = ''delete'' \<and> truthy (p_id (data x))) \<and> p_id (data x) = Some i)"
    by (rule map_filter_mem)
  also have "\<dots> \<longleftrightarrow> (\<exists>x\<in>set queue. action x = ''delete'' \<and> truthy (p_id (data x)) \<and> p_id (data x) = Some i)"
    by (simp only: conj_assoc)
  finally show ?thesis .
qed

lemma processed_iff_not_stays:
  assumes x: "x \<in> set queue"
  shows "(noteId x \<in> set (processedIds (collapse queue)) \<or>
          (action x = ''delete'' \<and>
           (case p_id (data x) of Some i \<Rightarrow> i \<in> set (deleteIds (collapse queue)) | None \<Rightarrow> False)))
         \<longleftrightarrow> \<not> stays queue x"
proof (cases "action x = ''delete'' \<and> truthy (p_id (data x))")
  case True
  then obtain i where i: "p_id (data x) = Some i" by (auto simp: truthy_def split: option.splits)
  then have "i \<in> set (deleteIds (collapse queue))" using True x deleteIds_iff[of i queue] by blast
  then show ?thesis using True i by (simp add: stays_def)
next
  case False
  have nd: "\<not> (case p_id (data x) of Some i \<Rightarrow> i \<in> set (deleteIds (collapse queue)) | None \<Rightarrow> False)"
    if "action x = ''delete''"
  proof (cases "p_id (data x)")
    case None
    then show ?thesis by simp
  next
    case (Some i)
    have "\<not> truthy (Some i)" using False that Some by simp
    then have "i = []" by (simp add: truthy_def)
    moreover have "[] \<notin> set (deleteIds (collapse queue))"
      using deleteIds_iff[of "[]" queue] by (auto simp: truthy_def)
    ultimately show ?thesis using Some by simp
  qed
  have p: "noteId x \<in> set (processedIds (collapse queue)) \<longleftrightarrow> latest queue (noteId x) \<noteq> None"
    using processedIds_iff[of "noteId x" queue] x False by blast
  show ?thesis
  proof (cases "action x = ''delete''")
    case True
    then show ?thesis using nd p False by (simp add: stays_def)
  next
    case nd2: False
    then have "latest queue (noteId x) \<noteq> None" using latest_None[of queue "noteId x"] x by blast
    then show ?thesis using p nd2 by (simp add: stays_def)
  qed
qed

lemma bulkDelete_processed:
  assumes d: "distinct (map e_id tbl)" and s: "set queue = set tbl"
  shows "bulkDelete (processedQueueIds queue (collapse queue)) tbl = filter (stays queue) tbl"
proof -
  let ?P = "\<lambda>q. noteId q \<in> set (processedIds (collapse queue)) \<or>
                    (action q = ''delete'' \<and>
                     (case p_id (data q) of Some i \<Rightarrow> i \<in> set (deleteIds (collapse queue)) | None \<Rightarrow> False))"
  have inj: "inj_on e_id (set tbl)" using d by (simp add: distinct_map)
  have "e_id x \<notin> set (processedQueueIds queue (collapse queue)) \<longleftrightarrow> stays queue x" if x: "x \<in> set tbl" for x
  proof -
    have "e_id x \<in> set (processedQueueIds queue (collapse queue)) \<longleftrightarrow> (\<exists>y\<in>set tbl. ?P y \<and> e_id y = e_id x)"
      unfolding processedQueueIds_def map_filter_mem s ..
    also have "\<dots> \<longleftrightarrow> ?P x" using inj x by (auto dest: inj_onD)
    also have "\<dots> \<longleftrightarrow> \<not> stays queue x" using processed_iff_not_stays[of x queue] x s by simp
    finally show ?thesis by simp
  qed
  then show ?thesis unfolding bulkDelete_def by (intro filter_cong) simp_all
qed


lemma cycle_outcome:
  assumes cy: "cycle e st = (r, st')" and d: "distinct (map e_id (db_syncQueue st))"
  shows "(r = Inr True \<longrightarrow>
           db_syncQueue st' = filter (stays (sort_key timestamp (db_syncQueue st))) (db_syncQueue st) \<and>
           timers st' = timers st \<and>
           syncRetryDelay st' = (if db_syncQueue st = [] then syncRetryDelay st else 1000)) \<and>
         (r = Inr False \<longrightarrow>
           db_syncQueue st' = map bump (db_syncQueue st) \<and>
           syncRetryDelay st' = min (syncRetryDelay st * 2) MAX_RETRY_DELAY \<and>
           timers st' = timers st @ [min (syncRetryDelay st * 2) MAX_RETRY_DELAY]) \<and>
         (r = Inl Thrown \<longrightarrow>
           map e_id (db_syncQueue st') = map e_id (db_syncQueue st) \<and>
           syncRetryDelay st' = min (syncRetryDelay st * 2) MAX_RETRY_DELAY \<and>
           timers st' = timers st)"
proof -
  let ?q = "sort_key timestamp (db_syncQueue st)"
  obtain rt st1 where tb: "try_block e st = (rt, st1)" by (cases "try_block e st")
  obtain rc st2 where cb: "catch_block e st1 = (rc, st2)" by (cases "catch_block e st1")
  note f1 = try_block_frame[OF tb]
  note f2 = catch_block_frame[OF cb]
  have bd: "bulkDelete (processedQueueIds ?q (collapse ?q)) (db_syncQueue st) = filter (stays ?q) (db_syncQueue st)"
    by (rule bulkDelete_processed[OF d]) simp
  have t1: "timers st1 = timers st" using f1 by blast
  have a1: "\<forall>a. rt = Inl a \<longrightarrow> syncRetryDelay st1 = syncRetryDelay st" using f1 by blast
  have q1: "rt = Inl Thrown \<longrightarrow> db_syncQueue st1 = db_syncQueue st" using f1 by blast
  have b0: "\<forall>b. rt = Inr b \<longrightarrow> b \<and>
            syncRetryDelay st1 = (if db_syncQueue st = [] then syncRetryDelay st else 1000) \<and>
            db_syncQueue st1 = bulkDelete (processedQueueIds ?q (collapse ?q)) (db_syncQueue st)"
    using f1 by blast
  have b1: "\<forall>b. rt = Inr b \<longrightarrow> b \<and>
            syncRetryDelay st1 = (if db_syncQueue st = [] then syncRetryDelay st else 1000) \<and>
            db_syncQueue st1 = filter (stays ?q) (db_syncQueue st)"
    using b0 unfolding bd .
  have d2: "syncRetryDelay st2 = min (syncRetryDelay st1 * 2) MAX_RETRY_DELAY" using f2 by blast
  have i2: "map e_id (db_syncQueue st2) = map e_id (db_syncQueue st1)" using f2 by blast
  have l2: "\<forall>a. rc = Inl a \<longrightarrow> timers st2 = timers st1" using f2 by blast
  have r2: "\<forall>b. rc = Inr b \<longrightarrow> \<not> b \<and> timers st2 = timers st1 @ [syncRetryDelay st2] \<and>
            (distinct (map e_id (db_syncQueue st1)) \<longrightarrow> db_syncQueue st2 = map bump (db_syncQueue st1))"
    using f2 by (elim conjE) assumption
  show ?thesis
  proof (cases rt)
    case (Inr b)
    then have r: "r = Inr b" and s: "st' = st1\<lparr>syncInProgress := False, inFlight := inFlight st1 - 1\<rparr>"
      using cy unfolding cycle_unfold[OF tb cb] by simp_all
    have b: "b" and dl: "syncRetryDelay st1 = (if db_syncQueue st = [] then syncRetryDelay st else 1000)"
      and qq: "db_syncQueue st1 = filter (stays ?q) (db_syncQueue st)"
      using b1 Inr by simp_all
    show ?thesis unfolding r s using b dl qq t1 by simp
  next
    case (Inl a)
    show ?thesis
    proof (cases a)
      case (Parked s)
      then have "r = Inl (Parked s)" using Inl cy unfolding cycle_unfold[OF tb cb] by simp
      then show ?thesis by simp
    next
      case Thrown
      have s1: "syncRetryDelay st1 = syncRetryDelay st" "db_syncQueue st1 = db_syncQueue st"
        using a1 q1 Inl Thrown by simp_all
      show ?thesis
      proof (cases rc)
        case rcl: (Inl a')
        show ?thesis
        proof (cases a')
          case (Parked s)
          then have "r = Inl (Parked s)" using rcl Inl Thrown cy unfolding cycle_unfold[OF tb cb] by simp
          then show ?thesis by simp
        next
          case th: Thrown
          then have r: "r = Inl Thrown" and s: "st' = st2\<lparr>syncInProgress := False, inFlight := inFlight st2 - 1\<rparr>"
            using rcl Inl Thrown cy unfolding cycle_unfold[OF tb cb] by simp_all
          have "timers st2 = timers st1" using l2 rcl by simp
          then show ?thesis unfolding r s using t1 s1 d2 i2 by simp
        qed
      next
        case rcr: (Inr b)
        then have r: "r = Inr b" and s: "st' = st2\<lparr>syncInProgress := False, inFlight := inFlight st2 - 1\<rparr>"
          using Inl Thrown cy unfolding cycle_unfold[OF tb cb] by simp_all
        have nb: "\<not> b" and tm: "timers st2 = timers st1 @ [syncRetryDelay st2]"
          and bq: "db_syncQueue st2 = map bump (db_syncQueue st1)"
          using r2 rcr d s1 by simp_all
        show ?thesis unfolding r s using nb tm bq t1 s1 d2 by simp
      qed
    qed
  qed
qed

lemma triggerSync_outcome:
  assumes on: "isOnline st" and idle: "\<not> syncInProgress st"
      and t: "triggerSync e st = (r, st')" and d: "distinct (map e_id (db_syncQueue st))"
  shows "(r = Inr True \<longrightarrow>
           db_syncQueue st' = filter (stays (sort_key timestamp (db_syncQueue st))) (db_syncQueue st) \<and>
           timers st' = timers st \<and>
           syncRetryDelay st' = (if db_syncQueue st = [] then syncRetryDelay st else 1000)) \<and>
         (r = Inr False \<longrightarrow>
           db_syncQueue st' = map bump (db_syncQueue st) \<and>
           syncRetryDelay st' = min (syncRetryDelay st * 2) MAX_RETRY_DELAY \<and>
           timers st' = timers st @ [min (syncRetryDelay st * 2) MAX_RETRY_DELAY]) \<and>
         (r = Inl Thrown \<longrightarrow>
           map e_id (db_syncQueue st') = map e_id (db_syncQueue st) \<and>
           syncRetryDelay st' = min (syncRetryDelay st * 2) MAX_RETRY_DELAY \<and>
           timers st' = timers st)"
proof -
  let ?st0 = "st\<lparr>syncInProgress := True, inFlight := inFlight st + 1\<rparr>"
  have cy: "cycle e ?st0 = (r, st')" using triggerSync_started[OF on idle, of e] t by simp
  have d0: "distinct (map e_id (db_syncQueue ?st0))" using d by simp
  from cycle_outcome[OF cy d0] show ?thesis by simp
qed

lemma push_rejected:
  assumes w: "settle e QueueRead = Resolves" and dl: "\<forall>i. settle e (ApiDelete i) \<noteq> Pending"
      and ns: "notesToSync (collapse (sort_key timestamp (db_syncQueue st))) \<noteq> []"
      and p: "settle e ApiPost = Rejects"
  shows "fst (try_block e st) = Inl Thrown"
proof -
  let ?q = "sort_key timestamp (db_syncQueue st)"
  let ?c = "collapse ?q"
  have ne: "db_syncQueue st \<noteq> []" using ns by (auto simp: collapse_def)
  have qn: "?q \<noteq> []" using ne by (simp add: sort_key_Nil_iff)
  have w1: "wait e QueueRead = None" using w by (simp add: wait_def)
  have w2: "wait e ApiPost = Some Thrown" using p by (simp add: wait_def)
  note sd = send_deletes_settled[OF dl, of 0 "deleteIds ?c" st]
  show ?thesis
    unfolding try_block_def Let_def using w1 qn sd ns w2
    by (simp add: push_notes_def Let_def)
qed


lemma catch_block_settled:
  assumes "settle e RetryRead = Resolves" and "\<forall>i. settle e (RetryWrite i) = Resolves"
  shows "fst (catch_block e st) = Inr False"
proof -
  let ?st1 = "st\<lparr>syncRetryDelay := min (syncRetryDelay st * 2) MAX_RETRY_DELAY\<rparr>"
  have w: "wait e RetryRead = None" using assms(1) by (simp add: wait_def)
  obtain r1 st2 where p: "bump_retries e 0 (db_syncQueue ?st1) ?st1 = (r1, st2)"
    by (cases "bump_retries e 0 (db_syncQueue ?st1) ?st1")
  have "r1 = Inr ()" using bump_retries_settled[OF assms(2), of 0 "db_syncQueue ?st1" ?st1] p by simp
  then show ?thesis using w p by (simp add: catch_block_def Let_def)
qed

lemma cycle_caught:
  assumes "fst (try_block e st) = Inl Thrown"
      and "fst (catch_block e (snd (try_block e st))) = Inr False"
  shows "fst (cycle e st) = Inr False"
proof -
  obtain rt st1 where tb: "try_block e st = (rt, st1)" by (cases "try_block e st")
  obtain rc st2 where cb: "catch_block e st1 = (rc, st2)" by (cases "catch_block e st1")
  have "rt = Inl Thrown" "rc = Inr False" using assms tb cb by simp_all
  then show ?thesis unfolding cycle_unfold[OF tb cb] by simp
qed

subsection \<open>Reconciling a record twice\<close>

lemma find_after_update:
  assumes f: "find P xs = Some l"
      and u1: "\<And>r. n_id (U r) = n_id r" and u2: "\<And>r. P r \<Longrightarrow> P (U r)"
  shows "\<exists>l'. find P (map (\<lambda>r. if n_id r = n_id l then U r else r) xs) = Some l' \<and> n_id l' = n_id l"
  using f
proof (induction xs)
  case Nil
  then show ?case by simp
next
  case (Cons x xs)
  show ?case
  proof (cases "P x")
    case True
    then have "l = x" using Cons.prems by simp
    then show ?thesis using True u1 u2 by simp
  next
    case False
    then have r: "find P xs = Some l" using Cons.prems by simp
    show ?thesis
    proof (cases "n_id x = n_id l")
      case True
      show ?thesis
      proof (cases "P (U x)")
        case pu: True
        then show ?thesis using True u1 by simp
      next
        case pu: False
        then show ?thesis using True Cons.IH[OF r] by simp
      qed
    next
      case ne: False
      then show ?thesis using False Cons.IH[OF r] by simp
    qed
  qed
qed

lemma find_after_adopt:
  assumes m: "l \<in> set xs" and n: "find P xs = None"
      and u1: "\<And>r. n_id (U r) = n_id r" and u2: "\<And>r. P (U r)"
  shows "\<exists>l'. find P (map (\<lambda>r. if n_id r = n_id l then U r else r) xs) = Some l' \<and> n_id l' = n_id l"
  using m n
proof (induction xs)
  case Nil
  then show ?case by simp
next
  case (Cons x xs)
  have np: "\<not> P x" and r: "find P xs = None" using Cons.prems(2) by (simp_all split: if_splits)
  show ?case
  proof (cases "n_id x = n_id l")
    case True
    then show ?thesis using u1 u2 by simp
  next
    case False
    then have "l \<in> set xs" using Cons.prems(1) by auto
    then show ?thesis using False np Cons.IH[OF _ r] by simp
  qed
qed

lemma update_twice:
  assumes u1: "\<And>r. n_id (U r) = n_id r" and u2: "\<And>r. U (U r) = U r"
  shows "notes_update a U (notes_update a U xs) = notes_update a U xs"
  by (induction xs) (simp_all add: notes_update_def u1 u2)

lemma update_absent:
  assumes "\<forall>r\<in>set xs. n_id r \<noteq> a"
  shows "notes_update a U xs = xs"
  using assms by (induction xs) (simp_all add: notes_update_def)

lemma find_None_append: "find P xs = None \<Longrightarrow> find P (xs @ [y]) = (if P y then Some y else None)"
  by (induction xs) (simp_all split: if_splits)

lemma write_pulled_twice:
  assumes wf: "\<forall>r\<in>set (db_notes st). n_id r < notesKey st"
  shows "findByServerId k (db_notes (write_pulled k n st)) \<noteq> None \<and>
         write_pulled k n (write_pulled k n st) = write_pulled k n st"
proof (cases "findByServerId k (db_notes st)")
  case None
  let ?new = "\<lparr>n_id = notesKey st, serverId = Some k, title = s_title n, content = s_content n,
                     lastModified = dateOf n, synced = True, userId = s_userId n\<rparr>"
  have s1: "write_pulled k n st = st\<lparr>db_notes := db_notes st @ [?new], notesKey := Suc (notesKey st)\<rparr>"
    using None by (simp add: write_pulled_def notes_add_def)
  have f: "findByServerId k (db_notes st @ [?new]) = Some ?new"
    using None find_None_append[of "\<lambda>n. serverId n = Some k" "db_notes st" ?new]
    by (simp add: findByServerId_def)
  have ab: "\<forall>r\<in>set (db_notes st). n_id r \<noteq> notesKey st" using wf by auto
  have "notes_update (notesKey st)
          (\<lambda>r. r\<lparr>title := s_title n, content := s_content n, lastModified := dateOf n, synced := True\<rparr>)
          (db_notes st @ [?new]) = db_notes st @ [?new]"
    using update_absent[OF ab] by (simp add: notes_update_def)
  then show ?thesis unfolding s1 using f by (simp add: write_pulled_def)
next
  case (Some ex)
  let ?U = "\<lambda>r. r\<lparr>title := s_title n, content := s_content n, lastModified := dateOf n, synced := True\<rparr>"
  have s1: "write_pulled k n st = st\<lparr>db_notes := notes_update (n_id ex) ?U (db_notes st)\<rparr>"
    using Some by (simp add: write_pulled_def)
  obtain l' where l': "find (\<lambda>n. serverId n = Some k) (map (\<lambda>r. if n_id r = n_id ex then ?U r else r) (db_notes st)) = Some l'"
      "n_id l' = n_id ex"
    using find_after_update[of "\<lambda>n. serverId n = Some k" "db_notes st" ex ?U] Some
    by (auto simp: findByServerId_def)
  then have f: "findByServerId k (notes_update (n_id ex) ?U (db_notes st)) = Some l'"
    by (simp add: findByServerId_def notes_update_def)
  have tw: "notes_update (n_id ex) ?U (notes_update (n_id ex) ?U (db_notes st)) = notes_update (n_id ex) ?U (db_notes st)"
    by (rule update_twice) simp_all
  show ?thesis unfolding s1 using f l'(2) tw by (simp add: write_pulled_def)
qed

lemma write_pushed_twice:
  assumes wf: "\<forall>r\<in>set (db_notes st). n_id r < notesKey st"
      and k: "noteIdOf n = Some k"
      and fd: "found = (case findByServerId k (db_notes st) of Some l \<Rightarrow> Some l
                        | None \<Rightarrow> findByTitleUnsynced (s_title n) (db_notes st))"
  shows "\<exists>l'. findByServerId k (db_notes (write_pushed n found st)) = Some l' \<and>
              write_pushed n (Some l') (write_pushed n found st) = write_pushed n found st"
proof (cases found)
  case None
  then have ns: "findByServerId k (db_notes st) = None" using fd by (simp split: option.splits)
  let ?new = "\<lparr>n_id = notesKey st, serverId = Some k, title = s_title n, content = s_content n,
                     lastModified = dateOf n, synced = True, userId = s_userId n\<rparr>"
  have s1: "write_pushed n found st = st\<lparr>db_notes := db_notes st @ [?new], notesKey := Suc (notesKey st)\<rparr>"
    using None k by (simp add: write_pushed_def notes_add_def)
  have f: "findByServerId k (db_notes st @ [?new]) = Some ?new"
    using ns find_None_append[of "\<lambda>n. serverId n = Some k" "db_notes st" ?new]
    by (simp add: findByServerId_def)
  have ab: "\<forall>r\<in>set (db_notes st). n_id r \<noteq> notesKey st" using wf by auto
  have "notes_update (notesKey st)
          (\<lambda>r. r\<lparr>serverId := Some k, title := s_title n, content := s_content n, synced := True, lastModified := dateOf n\<rparr>)
          (db_notes st @ [?new]) = db_notes st @ [?new]"
    using update_absent[OF ab] by (simp add: notes_update_def)
  then have "write_pushed n (Some ?new) (write_pushed n found st) = write_pushed n found st"
    unfolding s1 using k by (simp add: write_pushed_def)
  then show ?thesis using f unfolding s1 by simp
next
  case (Some l)
  let ?U = "\<lambda>r. r\<lparr>serverId := Some k, title := s_title n, content := s_content n, synced := True, lastModified := dateOf n\<rparr>"
  have s1: "write_pushed n found st = st\<lparr>db_notes := notes_update (n_id l) ?U (db_notes st)\<rparr>"
    using Some k by (simp add: write_pushed_def)
  have "\<exists>l'. find (\<lambda>n. serverId n = Some k) (map (\<lambda>r. if n_id r = n_id l then ?U r else r) (db_notes st)) = Some l' \<and>
             n_id l' = n_id l"
  proof (cases "findByServerId k (db_notes st)")
    case fs: (Some l0)
    then have "l0 = l" using fd Some by simp
    then have "find (\<lambda>n. serverId n = Some k) (db_notes st) = Some l" using fs by (simp add: findByServerId_def)
    then show ?thesis by (rule find_after_update) simp_all
  next
    case fn: None
    then have "findByTitleUnsynced (s_title n) (db_notes st) = Some l" using fd Some by simp
    then have m: "l \<in> set (db_notes st)"
      unfolding findByTitleUnsynced_def by (auto simp: find_Some_iff)
    have nn: "find (\<lambda>n. serverId n = Some k) (db_notes st) = None" using fn by (simp add: findByServerId_def)
    show ?thesis by (rule find_after_adopt[OF m nn]) simp_all
  qed
  then obtain l' where l': "findByServerId k (notes_update (n_id l) ?U (db_notes st)) = Some l'"
      "n_id l' = n_id l"
    by (auto simp: findByServerId_def notes_update_def)
  have tw: "notes_update (n_id l) ?U (notes_update (n_id l) ?U (db_notes st)) = notes_update (n_id l) ?U (db_notes st)"
    by (rule update_twice) simp_all
  have "write_pushed n (Some l') (write_pushed n found st) = write_pushed n found st"
    unfolding s1 using k l'(2) tw by (simp add: write_pushed_def)
  then show ?thesis using l'(1) unfolding s1 by simp
qed


lemma pull_notes_single:
  assumes "pull_notes e i [n] st = (Inr u, st1)"
  shows "\<exists>k. noteIdOf n = Some k \<and> st1 = write_pulled k n st"
proof (cases "noteIdOf n")
  case None
  then show ?thesis using assms by (simp split: option.splits)
next
  case (Some k)
  then show ?thesis using assms by (simp split: option.splits)
qed

lemma reconcile_pushed_single:
  assumes "reconcile_pushed e i [n] st = (Inr u, st1)"
  shows "\<exists>k. noteIdOf n = Some k \<and>
           st1 = write_pushed n (case findByServerId k (db_notes st) of Some l \<Rightarrow> Some l
                        | None \<Rightarrow> findByTitleUnsynced (s_title n) (db_notes st)) st"
proof (cases "noteIdOf n")
  case None
  then show ?thesis using assms by (simp add: lookup_pushed_def split: option.splits)
next
  case (Some k)
  then show ?thesis using assms
    by (auto simp: lookup_pushed_def split: option.splits sum.splits)
qed

subsection \<open>Last write wins\<close>

lemma pull_notes_not_parked:
  assumes "\<forall>s. settle e s \<noteq> Pending"
  shows "fst (pull_notes e i ns st) \<noteq> Inl (Parked s)"
proof (induction ns arbitrary: i st)
  case Nil
  then show ?case by simp
next
  case (Cons n ns)
  have w: "wait e x \<noteq> Some (Parked s)" for x
    using assms by (cases "settle e x") (simp_all add: wait_def)
  show ?case using w[of "PullFind i"] w[of "PullWrite i"] Cons.IH
    by (auto split: option.split)
qed

lemma syncFromServer_returns:
  assumes "\<forall>s. settle e s \<noteq> Pending"
  shows "fst (syncFromServer e st) = Inr ()"
proof -
  let ?st1 = "st\<lparr>sent := sent st @ [ReqGet (case lastSync st of Some t \<Rightarrow> t | None \<Rightarrow> 0)]\<rparr>"
  obtain r st2 where p: "pull_notes e 0 (getData e) ?st1 = (r, st2)" by (cases "pull_notes e 0 (getData e) ?st1")
  have np: "r \<noteq> Inl (Parked s)" for s using pull_notes_not_parked[OF assms, of 0 "getData e" ?st1 s] p by simp
  have w: "wait e ApiGet \<noteq> Some (Parked s)" for s
    using assms by (cases "settle e ApiGet") (simp_all add: wait_def)
  show ?thesis
  proof (cases "wait e ApiGet")
    case None
    show ?thesis
    proof (cases r)
      case (Inl a)
      then show ?thesis using None p np by (cases a) (simp_all add: syncFromServer_def Let_def)
    next
      case (Inr u)
      then show ?thesis using None p by (simp add: syncFromServer_def Let_def)
    qed
  next
    case (Some a)
    then show ?thesis using w by (cases a) (simp_all add: syncFromServer_def Let_def)
  qed
qed

lemma try_block_pushed:
  assumes e: "\<forall>s. settle e s = Resolves"
      and ne: "db_syncQueue st \<noteq> []"
      and ns: "notesToSync (collapse (sort_key timestamp (db_syncQueue st))) \<noteq> []"
      and p: "fst (push_notes e (notesToSync (collapse (sort_key timestamp (db_syncQueue st))))
                 (st\<lparr>sent := sent st @ map ReqDelete (deleteIds (collapse (sort_key timestamp (db_syncQueue st))))\<rparr>)) = Inr ()"
  shows "fst (try_block e st) = Inr True"
proof -
  let ?q = "sort_key timestamp (db_syncQueue st)"
  let ?c = "collapse ?q"
  let ?st1 = "st\<lparr>sent := sent st @ map ReqDelete (deleteIds ?c)\<rparr>"
  have np: "\<forall>s. settle e s \<noteq> Pending" using e by simp
  have w: "wait e x = None" for x using e by (simp add: wait_def)
  have p1: "send_deletes e 0 (deleteIds ?c) st = (Inr (), ?st1)"
    by (rule send_deletes_settled) (simp add: e)
  obtain st2 where p2': "push_notes e (notesToSync ?c) ?st1 = (Inr (), st2)"
    using p by (cases "push_notes e (notesToSync ?c) ?st1") simp
  then have p2: "(if notesToSync ?c \<noteq> [] then push_notes e (notesToSync ?c) ?st1 else (Inr (), ?st1)) = (Inr (), st2)"
    using ns by simp
  let ?st2' = "st2\<lparr>db_syncQueue := bulkDelete (processedQueueIds ?q ?c) (db_syncQueue st2)\<rparr>"
  obtain st3 where p3: "syncFromServer e ?st2' = (Inr (), st3)"
    using syncFromServer_returns[OF np, of ?st2'] by (cases "syncFromServer e ?st2'") simp
  show ?thesis
    unfolding try_block_nonempty[OF w ne refl refl p1 p2 p3] using w by simp
qed


lemma cycle_returns:
  assumes "fst (try_block e st) = Inr b"
  shows "fst (cycle e st) = Inr b"
proof -
  obtain rt st1 where tb: "try_block e st = (rt, st1)" by (cases "try_block e st")
  obtain rc st2 where cb: "catch_block e st1 = (rc, st2)" by (cases "catch_block e st1")
  have "rt = Inr b" using assms tb by simp
  then show ?thesis unfolding cycle_unfold[OF tb cb] by simp
qed

lemma collapse_single:
  assumes "action x \<noteq> ''delete''"
  shows "collapse [x] = \<lparr>notesToSync = [data x], processedIds = [noteId x], deleteIds = []\<rparr>"
  using assms by (simp add: collapse_def latest_def)

lemma post_sync_existing:
  assumes f: "find (\<lambda>n. s__id n = Some i) store = Some X"
      and o: "s_userId X = Some (reqUser v)" and m: "s_lastModified X = Some T2"
      and d: "p_id d = Some i" "i \<noteq> []" "p_lastModified d = Some T1"
      and nf: "\<not> findThrows v 0" and ns: "\<not> saveThrows v 0"
  shows "post_sync v [d] store =
           (if T2 \<le> T1 then
              (map (\<lambda>n. if s__id n = Some i
                         then X\<lparr>s_title := setTitle v (p_title d), s_content := p_content d,
                               s_lastModified := Some T1, s_updatedAt := Some (srvNow v)\<rparr>
                         else n) store,
               \<lparr>created = [],
                updated = [X\<lparr>s_title := setTitle v (p_title d), s_content := p_content d,
                             s_lastModified := Some T1, s_updatedAt := Some (srvNow v)\<rparr>],
                conflicts = []\<rparr>)
            else
              (store,
               \<lparr>created = [], updated = [],
                conflicts = [\<lparr>c_id = Some i, c_reason = ''Server version is newer'',
                              c_serverNote = Some X\<rparr>]\<rparr>))"
proof -
  have x: "s__id X = Some i" using f by (auto simp: find_Some_iff)
  show ?thesis
    using f o m d nf ns x
    by (simp add: post_sync_def sync_note_def truthy_def Let_def)
qed

lemma app_post_sync_existing:
  assumes f: "find (\<lambda>n. s__id n = Some (sanitizeString i)) store = Some X"
      and o: "s_userId X = Some (reqUser v)" and m: "s_lastModified X = Some T2"
      and d: "p_id d = Some i" "sanitizeString i \<noteq> []" "p_lastModified d = Some T1"
      and nf: "\<not> findThrows v 0" and ns: "\<not> saveThrows v 0"
  shows "app_post_sync v [d] store =
           (if T2 \<le> T1 then
              (map (\<lambda>n. if s__id n = Some (sanitizeString i)
                         then X\<lparr>s_title := setTitle v (sanitizeString (p_title d)),
                               s_content := sanitizeString (p_content d),
                               s_lastModified := Some T1, s_updatedAt := Some (srvNow v)\<rparr>
                         else n) store,
               \<lparr>created = [],
                updated = [X\<lparr>s_title := setTitle v (sanitizeString (p_title d)),
                             s_content := sanitizeString (p_content d),
                             s_lastModified := Some T1, s_updatedAt := Some (srvNow v)\<rparr>],
                conflicts = []\<rparr>)
            else
              (store,
               \<lparr>created = [], updated = [],
                conflicts = [\<lparr>c_id = Some (sanitizeString i), c_reason = ''Server version is newer'',
                              c_serverNote = Some X\<rparr>]\<rparr>))"
proof -
  have d': "p_id (sanitizeObject d) = Some (sanitizeString i)"
           "p_lastModified (sanitizeObject d) = Some T1"
    using d by (simp_all add: sanitizeObject_def)
  have t: "p_title (sanitizeObject d) = sanitizeString (p_title d)"
          "p_content (sanitizeObject d) = sanitizeString (p_content d)"
    by (simp_all add: sanitizeObject_def)
  have "app_post_sync v [d] store = post_sync v [sanitizeObject d] store"
    by (simp add: app_post_sync_def sanitizeBody_def)
  then show ?thesis
    unfolding post_sync_existing[OF f o m d'(1) d(2) d'(2) nf ns] t by simp
qed

lemma push_notes_updated:
  assumes e: "\<forall>s. settle e s = Resolves"
      and pd: "postData e = \<lparr>created = [], updated = [sn], conflicts = []\<rparr>"
      and k: "noteIdOf sn = Some i" and l: "findByServerId i (db_notes st) = Some L"
  shows "push_notes e ns st =
           (Inr (), st\<lparr>sent := sent st @ [ReqPost ns],
                        db_notes := notes_update (n_id L)
                          (\<lambda>r. r\<lparr>serverId := Some i, title := s_title sn, content := s_content sn,
                                  synced := True, lastModified := dateOf sn\<rparr>) (db_notes st)\<rparr>)"
proof -
  have w: "wait e x = None" for x using e by (simp add: wait_def)
  show ?thesis
    using w pd k l
    by (simp add: push_notes_def Let_def lookup_pushed_def write_pushed_def)
qed

lemma push_notes_conflict:
  assumes e: "\<forall>s. settle e s = Resolves"
      and pd: "postData e = \<lparr>created = [], updated = [],
                 conflicts = [\<lparr>c_id = Some i, c_reason = why, c_serverNote = Some X\<rparr>]\<rparr>"
      and l: "findByServerId i (db_notes st) = Some L"
  shows "push_notes e ns st =
           (Inr (), st\<lparr>sent := sent st @ [ReqPost ns],
                        db_notes := notes_update (n_id L)
                          (\<lambda>r. r\<lparr>title := s_title X, content := s_content X,
                                  lastModified := dateOf X, synced := True\<rparr>) (db_notes st)\<rparr>)"
proof -
  have w: "wait e x = None" for x using e by (simp add: wait_def)
  show ?thesis
    using w pd l
    by (simp add: push_notes_def Let_def write_conflict_def)
qed


section \<open>The claims\<close>

text \<open>
  C1. From a state in which no cycle runs, whatever the callers, the timers, the connectivity
  events and the settling promises do, at most one activation of \<^verbatim>\<open>triggerSync\<close> is past
  its guard at any time, and the flag tells whether one is. A call made while the flag is
  set returns \<^verbatim>\<open>false\<close> and changes nothing. A call that passes the guard has the flag set
  at every \<^verbatim>\<open>await\<close> it can be parked at, the first one included, and has it cleared when it
  leaves, whether it returns \<^verbatim>\<open>true\<close>, returns \<^verbatim>\<open>false\<close> or throws.
\<close>

theorem single_flight_invariant:
  assumes "\<not> syncInProgress st0" and "inFlight st0 = 0"
  shows "inFlight (run evs st0) \<le> 1 \<and>
         syncInProgress (run evs st0) = (inFlight (run evs st0) = 1) \<and>
         (syncInProgress st \<longrightarrow> triggerSync e st = (Inr False, st)) \<and>
         (isOnline st \<and> \<not> syncInProgress st \<longrightarrow>
            (case triggerSync e st of
               (Inl (Parked s), st') \<Rightarrow> syncInProgress st' \<and> inFlight st' = inFlight st + 1
             | (r, st') \<Rightarrow> \<not> syncInProgress st' \<and> inFlight st' = inFlight st))"
proof -
  have "single_flight st0" using assms by (simp add: single_flight_def)
  then have "single_flight (run evs st0)" by (rule run_single_flight)
  then have a: "inFlight (run evs st0) \<le> 1" and b: "syncInProgress (run evs st0) = (inFlight (run evs st0) = 1)"
    by (simp_all add: single_flight_def)
  have c: "syncInProgress st \<longrightarrow> triggerSync e st = (Inr False, st)"
    by (simp add: triggerSync_def invoke_def)
  have d: "isOnline st \<and> \<not> syncInProgress st \<longrightarrow>
            (case triggerSync e st of
               (Inl (Parked s), st') \<Rightarrow> syncInProgress st' \<and> inFlight st' = inFlight st + 1
             | (r, st') \<Rightarrow> \<not> syncInProgress st' \<and> inFlight st' = inFlight st)"
  proof
    assume g: "isOnline st \<and> \<not> syncInProgress st"
    let ?st0 = "st\<lparr>syncInProgress := True, inFlight := inFlight st + 1\<rparr>"
    obtain r st' where cy: "cycle e ?st0 = (r, st')" by (cases "cycle e ?st0")
    have t: "triggerSync e st = (r, st')" using triggerSync_started[of st e] g cy by simp
    note f = cycle_flag[OF cy]
    show "case triggerSync e st of
               (Inl (Parked s), st') \<Rightarrow> syncInProgress st' \<and> inFlight st' = inFlight st + 1
             | (r, st') \<Rightarrow> \<not> syncInProgress st' \<and> inFlight st' = inFlight st"
    proof (cases "\<exists>s. r = Inl (Parked s)")
      case True
      then obtain s where "r = Inl (Parked s)" by blast
      then show ?thesis using f t by simp
    next
      case False
      then have "\<not> syncInProgress st' \<and> inFlight st' = inFlight st" using f by simp
      then show ?thesis using t False by (auto split: sum.splits abrupt.splits)
    qed
  qed
  from a b c d show ?thesis by - (intro conjI; assumption)
qed

theorem single_flight_invariant_witness:
  "inFlight (run [Call, Call, Enqueue env_ok None ''create'' payload_a1, PeriodicTimer] st_idle) \<le> 1 \<and>
   triggerSync env_ok (st_idle\<lparr>syncInProgress := True\<rparr>) = (Inr False, st_idle\<lparr>syncInProgress := True\<rparr>) \<and>
   syncInProgress (snd (triggerSync (env_pending ApiPost) (st_idle\<lparr>db_syncQueue := [update_a1]\<rparr>))) \<and>
   \<not> syncInProgress (snd (triggerSync (env_reject ApiPost) (st_idle\<lparr>db_syncQueue := [update_a1]\<rparr>)))"
proof -
  let ?st = "st_idle\<lparr>db_syncQueue := [update_a1]\<rparr>"
  have h1: "\<not> syncInProgress st_idle" and h2: "inFlight st_idle = 0" by (simp_all add: st_idle_def)
  have g: "isOnline ?st \<and> \<not> syncInProgress ?st" by (simp add: st_idle_def)
  have p: "fst (triggerSync (env_pending ApiPost) ?st) = Inl (Parked ApiPost)"
    by (simp add: model_defs sample_defs)
  have q: "fst (triggerSync (env_reject ApiPost) ?st) = Inr False"
    by (simp add: model_defs sample_defs)
  have a: "inFlight (run [Call, Call, Enqueue env_ok None ''create'' payload_a1, PeriodicTimer] st_idle) \<le> 1"
    using single_flight_invariant[OF h1 h2] by blast
  have b: "triggerSync env_ok (st_idle\<lparr>syncInProgress := True\<rparr>) = (Inr False, st_idle\<lparr>syncInProgress := True\<rparr>)"
    using single_flight_invariant[OF h1 h2, of "[]" "st_idle\<lparr>syncInProgress := True\<rparr>" env_ok] by simp
  have c: "syncInProgress (snd (triggerSync (env_pending ApiPost) ?st))"
    using single_flight_invariant[OF h1 h2, of "[]" ?st "env_pending ApiPost"] g p
    by (cases "triggerSync (env_pending ApiPost) ?st") auto
  have d: "\<not> syncInProgress (snd (triggerSync (env_reject ApiPost) ?st))"
    using single_flight_invariant[OF h1 h2, of "[]" ?st "env_reject ApiPost"] g q
    by (cases "triggerSync (env_reject ApiPost) ?st") auto
  from a b c d show ?thesis by - (intro conjI; assumption)
qed

text \<open>
  C2, as stated, fails: with an update and a delete of the same note in the queue, the
  update is still sent in the batched push, after the \<^verbatim>\<open>DELETE\<close> request.
\<close>

theorem delete_precedence_counterexample:
  "sent (snd (triggerSync env_ok (st_idle\<lparr>db_syncQueue := [update_a1, delete_a]\<rparr>))) =
     [ReqDelete ''a'', ReqPost [payload_a1], ReqGet 0] \<and>
   noteId update_a1 = noteId delete_a \<and> action delete_a = ''delete'' \<and> data update_a1 = payload_a1"
  by code_simp

text \<open>
  C2, amended. The identities to delete are the payload ids of the delete entries that carry
  one, in queue order. Every create or update entry has the latest entry of its identity in
  the batch, whether or not a delete of that identity is queued. The requests of an
  activation are \<^verbatim>\<open>DELETE\<close> requests for a prefix of those identities, then at most the one
  batched push, which is sent only after all of them, then at most the pull; an activation
  that returns \<^verbatim>\<open>true\<close> has sent them all.
\<close>

theorem deletes_before_push:
  assumes q: "queue = sort_key timestamp (db_syncQueue st)"
      and on: "isOnline st" and idle: "\<not> syncInProgress st"
      and t: "triggerSync e st = (r, st')"
  shows "map Some (deleteIds (collapse queue)) =
           map (\<lambda>q. p_id (data q)) (filter (\<lambda>q. action q = ''delete'' \<and> truthy (p_id (data q))) queue) \<and>
         (\<forall>x\<in>set queue. action x \<noteq> ''delete'' \<longrightarrow>
            (\<exists>l. latest queue (noteId x) = Some l \<and> data l \<in> set (notesToSync (collapse queue)))) \<and>
         (\<exists>n p g. n \<le> length (deleteIds (collapse queue)) \<and>
            sent st' = sent st @ map ReqDelete (take n (deleteIds (collapse queue))) @ p @ g \<and>
            (p = [] \<or> (p = [ReqPost (notesToSync (collapse queue))] \<and>
                        n = length (deleteIds (collapse queue)))) \<and>
            (g = [] \<or> g = [ReqGet (case lastSync st of Some t \<Rightarrow> t | None \<Rightarrow> 0)]) \<and>
            (r = Inr True \<longrightarrow>
               n = length (deleteIds (collapse queue)) \<and>
               p = (if notesToSync (collapse queue) \<noteq> [] then [ReqPost (notesToSync (collapse queue))] else []) \<and>
               g = [ReqGet (case lastSync st of Some t \<Rightarrow> t | None \<Rightarrow> 0)]))"
proof (intro conjI)
  show "map Some (deleteIds (collapse queue)) =
           map (\<lambda>q. p_id (data q)) (filter (\<lambda>q. action q = ''delete'' \<and> truthy (p_id (data q))) queue)"
    by (rule collapse_deletes)
next
  show "\<forall>x\<in>set queue. action x \<noteq> ''delete'' \<longrightarrow>
            (\<exists>l. latest queue (noteId x) = Some l \<and> data l \<in> set (notesToSync (collapse queue)))"
  proof (intro ballI impI)
    fix x assume x: "x \<in> set queue" and nd: "action x \<noteq> ''delete''"
    let ?c = "collapse queue"
    have "latest queue (noteId x) \<noteq> None" using x nd latest_None[of queue "noteId x"] by blast
    then obtain l where l: "latest queue (noteId x) = Some l" by blast
    have mem: "noteId x \<in> set (processedIds ?c)"
      unfolding collapse_def using x nd l by (intro process_queue_covers) simp_all
    then obtain i where i: "i < length (processedIds ?c)" "processedIds ?c ! i = noteId x"
      by (auto simp: in_set_conv_nth)
    have al: "map Some (notesToSync ?c) = map (\<lambda>k. map_option data (latest queue k)) (processedIds ?c)"
      using collapse_aligned[of queue] by simp
    from al have len: "length (notesToSync ?c) = length (processedIds ?c)" by (metis length_map)
    from al i len have "map Some (notesToSync ?c) ! i = map (\<lambda>k. map_option data (latest queue k)) (processedIds ?c) ! i"
      by simp
    with i len l have "notesToSync ?c ! i = data l" by simp
    then have "data l \<in> set (notesToSync ?c)" using i len by (metis nth_mem)
    with l show "\<exists>l. latest queue (noteId x) = Some l \<and> data l \<in> set (notesToSync ?c)" by blast
  qed
next
  from triggerSync_sent[OF on idle t, of "collapse queue" "case lastSync st of Some t \<Rightarrow> t | None \<Rightarrow> 0"] q
  obtain n p g where
    f: "n \<le> length (deleteIds (collapse queue)) \<and>
           sent st' = sent st @ map ReqDelete (take n (deleteIds (collapse queue))) @ p @ g \<and>
           (p = [] \<or> (p = [ReqPost (notesToSync (collapse queue))] \<and> notesToSync (collapse queue) \<noteq> [] \<and> n = length (deleteIds (collapse queue)))) \<and>
           (g = [] \<or> g = [ReqGet (case lastSync st of Some t \<Rightarrow> t | None \<Rightarrow> 0)]) \<and>
           (r = Inr True \<longrightarrow>
              n = length (deleteIds (collapse queue)) \<and>
              p = (if notesToSync (collapse queue) \<noteq> [] then [ReqPost (notesToSync (collapse queue))] else []) \<and>
              g = [ReqGet (case lastSync st of Some t \<Rightarrow> t | None \<Rightarrow> 0)])"
    by blast
  have f3: "p = [] \<or> (p = [ReqPost (notesToSync (collapse queue))] \<and> n = length (deleteIds (collapse queue)))"
    using f by blast
  show "\<exists>n p g. n \<le> length (deleteIds (collapse queue)) \<and>
            sent st' = sent st @ map ReqDelete (take n (deleteIds (collapse queue))) @ p @ g \<and>
            (p = [] \<or> (p = [ReqPost (notesToSync (collapse queue))] \<and>
                        n = length (deleteIds (collapse queue)))) \<and>
            (g = [] \<or> g = [ReqGet (case lastSync st of Some t \<Rightarrow> t | None \<Rightarrow> 0)]) \<and>
            (r = Inr True \<longrightarrow>
               n = length (deleteIds (collapse queue)) \<and>
               p = (if notesToSync (collapse queue) \<noteq> [] then [ReqPost (notesToSync (collapse queue))] else []) \<and>
               g = [ReqGet (case lastSync st of Some t \<Rightarrow> t | None \<Rightarrow> 0)])"
    apply (rule exI[of _ n], rule exI[of _ p], rule exI[of _ g])
    using f f3 by - (intro conjI; (elim conjE)?; assumption)
qed

theorem deletes_before_push_witness:
  "\<exists>n p g. sent (snd (triggerSync env_ok (st_idle\<lparr>db_syncQueue := [update_a1, delete_a]\<rparr>))) =
      sent (st_idle\<lparr>db_syncQueue := [update_a1, delete_a]\<rparr>) @
      map ReqDelete (take n (deleteIds (collapse [update_a1, delete_a]))) @ p @ g"
proof -
  let ?st = "st_idle\<lparr>db_syncQueue := [update_a1, delete_a]\<rparr>"
  have q: "[update_a1, delete_a] = sort_key timestamp (db_syncQueue ?st)" by code_simp
  have on: "isOnline ?st" and idle: "\<not> syncInProgress ?st" by (simp_all add: st_idle_def)
  have t: "triggerSync env_ok ?st = (fst (triggerSync env_ok ?st), snd (triggerSync env_ok ?st))" by simp
  from deletes_before_push[OF q on idle t] obtain n p g where
    "sent (snd (triggerSync env_ok ?st)) =
      sent ?st @ map ReqDelete (take n (deleteIds (collapse [update_a1, delete_a]))) @ p @ g"
    by (elim exE conjE) (rule that; assumption)
  then show ?thesis by (intro exI)
qed



text \<open>
  C4, as stated, fails where it says that the client's version is kept. The editor's
  content is markup, and \<^verbatim>\<open>sanitizeBody\<close> rewrites every string of the request before the
  handler compares the dates. Here the queued update carries the date of the server's
  document (the tie) and the text the local store holds, \<^verbatim>\<open>Plan\<close> with a space behind it and
  \<^verbatim>\<open><p>two</p>\<close>. The server stores \<^verbatim>\<open>Plan\<close> and \<^verbatim>\<open>ptwo/p\<close> and returns them, the cycle
  writes them over the local note (lines 138 to 144, and again from the pull) and removes
  the entry: after the cycle neither side holds the text the client had.
\<close>

theorem client_version_rewritten_counterexample:
  "p_lastModified payload_html = s_lastModified server_note_html \<and>
   map title (db_notes (st_queued update_html)) = [p_title payload_html] \<and>
   map content (db_notes (st_queued update_html)) = [p_content payload_html] \<and>
   p_content payload_html = ''<p>two</p>'' \<and>
   map s_title (fst (app_post_sync srv_ok [payload_html] [server_note_html])) = [''Plan''] \<and>
   map s_content (fst (app_post_sync srv_ok [payload_html] [server_note_html])) = [''ptwo/p''] \<and>
   conflicts (snd (app_post_sync srv_ok [payload_html] [server_note_html])) = [] \<and>
   fst (triggerSync (env_answering payload_html) (st_queued update_html)) = Inr True \<and>
   map title (db_notes (snd (triggerSync (env_answering payload_html) (st_queued update_html)))) = [''Plan''] \<and>
   map content (db_notes (snd (triggerSync (env_answering payload_html) (st_queued update_html)))) = [''ptwo/p''] \<and>
   db_syncQueue (snd (triggerSync (env_answering payload_html) (st_queued update_html))) = []"
proof -
  have a: "app_post_sync srv_ok [payload_html] [server_note_html] =
      ([server_note_html\<lparr>s_title := ''Plan'', s_content := ''ptwo/p'', s_lastModified := Some 20,
                         s_updatedAt := Some 100\<rparr>],
       \<lparr>created = [],
        updated = [server_note_html\<lparr>s_title := ''Plan'', s_content := ''ptwo/p'',
                     s_lastModified := Some 20, s_updatedAt := Some 100\<rparr>],
        conflicts = []\<rparr>)"
    by (simp add: app_post_sync_def post_sync_def sync_note_def truthy_def Let_def sanitize_defs
          html_defs srv_ok_def)
  have e: "env_answering payload_html =
      env_ok\<lparr>postData := \<lparr>created = [],
        updated = [server_note_html\<lparr>s_title := ''Plan'', s_content := ''ptwo/p'',
                     s_lastModified := Some 20, s_updatedAt := Some 100\<rparr>],
        conflicts = []\<rparr>,
        getData := [server_note_html\<lparr>s_title := ''Plan'', s_content := ''ptwo/p'',
                     s_lastModified := Some 20, s_updatedAt := Some 100\<rparr>]\<rparr>"
    unfolding env_answering_def a by simp
  have t: "triggerSync (env_answering payload_html) (st_queued update_html) =
      (Inr True,
       st_idle\<lparr>db_notes := [local_note_html\<lparr>title := ''Plan'', content := ''ptwo/p'', synced := True\<rparr>],
               lastSync := Some 100,
               sent := [ReqPost [payload_html], ReqGet 0]\<rparr>)"
    unfolding e
    by (simp add: model_defs lookup_pushed_def write_pushed_def write_pulled_def findByServerId_def
          notes_update_def noteIdOf_def dateOf_def st_queued_def st_idle_def env_ok_def update_html_def payload_html_def
          local_note_html_def server_note_html_def)
  show ?thesis
    unfolding t a by (simp add: html_defs st_idle_def)
qed

text \<open>
  C4 (amended). A queued update \<open>d\<close> with \<open>lastModified = T1\<close> meets the server's document
  \<open>X\<close> of the same note, owned by the user, with \<open>lastModified = T2\<close>; the note is in the
  local store and nothing fails. If \<open>T1 \<ge> T2\<close>, the tie included, the client's update
  prevails: the server stores the client's title and content as \<^verbatim>\<open>sanitizeBody\<close> (and the
  schema's setter of the title) rewrote them, reports no conflict, and the cycle writes
  that rewritten text into the local record. If \<open>T1 < T2\<close> the server keeps its document
  and reports a conflict that carries it, and the client writes the server's title,
  content and date into the local record. In both cases the cycle sends the update once,
  as it was queued, returns \<^verbatim>\<open>true\<close>, removes the entry from the queue and schedules no
  retry.
\<close>

theorem last_write_wins:
  assumes f: "find (\<lambda>n. s__id n = Some (sanitizeString i)) store = Some X"
      and o: "s_userId X = Some (reqUser v)" and m: "s_lastModified X = Some T2"
      and d: "p_id d = Some i" "sanitizeString i \<noteq> []" "p_lastModified d = Some T1"
      and nf: "\<not> findThrows v 0" and ns: "\<not> saveThrows v 0"
      and l: "findByServerId (sanitizeString i) (db_notes st) = Some L"
      and e: "\<forall>s. settle e s = Resolves" and pd: "postData e = snd (app_post_sync v [d] store)"
      and q: "db_syncQueue st = [x]" "data x = d" "action x \<noteq> ''delete''"
      and on: "isOnline st" and idle: "\<not> syncInProgress st"
  shows "(T2 \<le> T1 \<longrightarrow>
           fst (app_post_sync v [d] store) =
             map (\<lambda>n. if s__id n = Some (sanitizeString i)
                        then X\<lparr>s_title := setTitle v (sanitizeString (p_title d)),
                              s_content := sanitizeString (p_content d),
                              s_lastModified := Some T1, s_updatedAt := Some (srvNow v)\<rparr>
                        else n) store \<and>
           conflicts (snd (app_post_sync v [d] store)) = [] \<and>
           db_notes (snd (push_notes e [d] st)) =
             notes_update (n_id L)
               (\<lambda>r. r\<lparr>serverId := Some (sanitizeString i),
                       title := setTitle v (sanitizeString (p_title d)),
                       content := sanitizeString (p_content d),
                       synced := True, lastModified := Some T1\<rparr>) (db_notes st)) \<and>
         (T1 < T2 \<longrightarrow>
           fst (app_post_sync v [d] store) = store \<and>
           conflicts (snd (app_post_sync v [d] store)) =
             [\<lparr>c_id = Some (sanitizeString i), c_reason = ''Server version is newer'',
               c_serverNote = Some X\<rparr>] \<and>
           db_notes (snd (push_notes e [d] st)) =
             notes_update (n_id L)
               (\<lambda>r. r\<lparr>title := s_title X, content := s_content X,
                       lastModified := Some T2, synced := True\<rparr>) (db_notes st)) \<and>
         fst (triggerSync e st) = Inr True \<and>
         db_syncQueue (snd (triggerSync e st)) = [] \<and>
         timers (snd (triggerSync e st)) = timers st \<and>
         posts (sent (snd (triggerSync e st))) = posts (sent st) @ [[d]]"
proof -
  let ?saved = "X\<lparr>s_title := setTitle v (sanitizeString (p_title d)),
                   s_content := sanitizeString (p_content d),
                   s_lastModified := Some T1, s_updatedAt := Some (srvNow v)\<rparr>"
  note ps = app_post_sync_existing[OF f o m d nf ns]
  have xid: "s__id X = Some (sanitizeString i)" using f by (auto simp: find_Some_iff)
  have kid: "noteIdOf ?saved = Some (sanitizeString i)"
    using xid d(2) by (simp add: noteIdOf_def truthy_def)
  have dx: "dateOf X = Some T2" using m by (simp add: dateOf_def)
  have ds: "dateOf ?saved = Some T1" by (simp add: dateOf_def)
  have push: "push_notes e [d] s =
      (Inr (), s\<lparr>sent := sent s @ [ReqPost [d]],
           db_notes := notes_update (n_id L)
             (if T2 \<le> T1
              then (\<lambda>r. r\<lparr>serverId := Some (sanitizeString i),
                           title := setTitle v (sanitizeString (p_title d)),
                           content := sanitizeString (p_content d),
                           synced := True, lastModified := Some T1\<rparr>)
              else (\<lambda>r. r\<lparr>title := s_title X, content := s_content X,
                           lastModified := Some T2, synced := True\<rparr>)) (db_notes s)\<rparr>)"
    if ls: "findByServerId (sanitizeString i) (db_notes s) = Some L" for s
  proof (cases "T2 \<le> T1")
    case True
    then have p: "postData e = \<lparr>created = [], updated = [?saved], conflicts = []\<rparr>"
      using pd ps by simp
    show ?thesis using push_notes_updated[OF e p kid ls, of "[d]"] True ds by simp
  next
    case False
    then have p: "postData e = \<lparr>created = [], updated = [],
                 conflicts = [\<lparr>c_id = Some (sanitizeString i), c_reason = ''Server version is newer'',
                               c_serverNote = Some X\<rparr>]\<rparr>"
      using pd ps by simp
    show ?thesis using push_notes_conflict[OF e p ls, of "[d]"] False dx by simp
  qed
  have a: "T2 \<le> T1 \<longrightarrow>
           fst (app_post_sync v [d] store) =
             map (\<lambda>n. if s__id n = Some (sanitizeString i) then ?saved else n) store \<and>
           conflicts (snd (app_post_sync v [d] store)) = [] \<and>
           db_notes (snd (push_notes e [d] st)) =
             notes_update (n_id L)
               (\<lambda>r. r\<lparr>serverId := Some (sanitizeString i),
                       title := setTitle v (sanitizeString (p_title d)),
                       content := sanitizeString (p_content d),
                       synced := True, lastModified := Some T1\<rparr>) (db_notes st)"
    using ps push[OF l] by simp
  have b: "T1 < T2 \<longrightarrow>
           fst (app_post_sync v [d] store) = store \<and>
           conflicts (snd (app_post_sync v [d] store)) =
             [\<lparr>c_id = Some (sanitizeString i), c_reason = ''Server version is newer'',
               c_serverNote = Some X\<rparr>] \<and>
           db_notes (snd (push_notes e [d] st)) =
             notes_update (n_id L)
               (\<lambda>r. r\<lparr>title := s_title X, content := s_content X,
                       lastModified := Some T2, synced := True\<rparr>) (db_notes st)"
    using ps push[OF l] by simp
  let ?st0 = "st\<lparr>syncInProgress := True, inFlight := inFlight st + 1\<rparr>"
  have c1: "collapse (sort_key timestamp (db_syncQueue ?st0)) =
              \<lparr>notesToSync = [d], processedIds = [noteId x], deleteIds = []\<rparr>"
    using q collapse_single[OF q(3)] by simp
  have ne: "db_syncQueue ?st0 \<noteq> []" using q by simp
  have n1: "notesToSync (collapse (sort_key timestamp (db_syncQueue ?st0))) \<noteq> []" unfolding c1 by simp
  have l0: "findByServerId (sanitizeString i)
              (db_notes (?st0\<lparr>sent := sent ?st0 @ map ReqDelete []\<rparr>)) = Some L"
    using l by simp
  have p0: "fst (push_notes e (notesToSync (collapse (sort_key timestamp (db_syncQueue ?st0))))
                 (?st0\<lparr>sent := sent ?st0 @ map ReqDelete (deleteIds (collapse (sort_key timestamp (db_syncQueue ?st0))))\<rparr>)) = Inr ()"
    unfolding c1 using push[OF l0] by simp
  have tb: "fst (try_block e ?st0) = Inr True" by (rule try_block_pushed[OF e ne n1 p0])
  have cy: "fst (cycle e ?st0) = Inr True" by (rule cycle_returns[OF tb])
  have ts: "triggerSync e st = cycle e ?st0" by (rule triggerSync_started[OF on idle])
  have r: "fst (triggerSync e st) = Inr True" using cy ts by simp
  have t: "triggerSync e st = (Inr True, snd (triggerSync e st))" using r by (cases "triggerSync e st") simp
  have dq: "distinct (map e_id (db_syncQueue st))" using q by simp
  note oc = triggerSync_outcome[OF on idle t dq]
  have ns0: "\<not> stays [x] x" using q(3) by (simp add: stays_def)
  have c: "db_syncQueue (snd (triggerSync e st)) = []" using oc q ns0 by simp
  have tm: "timers (snd (triggerSync e st)) = timers st" using oc by simp
  have c2: "collapse (sort_key timestamp (db_syncQueue st)) =
              \<lparr>notesToSync = [d], processedIds = [noteId x], deleteIds = []\<rparr>"
    using c1 by simp
  have po: "posts (sent (snd (triggerSync e st))) = posts (sent st) @ [[d]]"
    using triggerSync_posts[OF on idle t refl] unfolding c2 by simp
  from a b r c tm po show ?thesis by - (intro conjI; assumption)
qed

theorem last_write_wins_witness:
  "db_notes (snd (push_notes (env_answering payload_html) [payload_html] (st_queued update_html))) =
     [local_note_html\<lparr>title := ''Plan'', content := ''ptwo/p'', synced := True, lastModified := Some 20\<rparr>] \<and>
   db_notes (snd (push_notes (env_answering payload_older) [payload_older] (st_queued update_older))) =
     [local_note_html\<lparr>title := ''theirs'', content := ''server text'', synced := True,
        lastModified := Some 20\<rparr>] \<and>
   fst (app_post_sync srv_ok [payload_older] [server_note_html]) = [server_note_html] \<and>
   db_syncQueue (snd (triggerSync (env_answering payload_older) (st_queued update_older))) = [] \<and>
   timers (snd (triggerSync (env_answering payload_older) (st_queued update_older))) = []"
proof -
  let ?i = "''507f191e810c19729de860ea''"
  let ?e2 = "env_answering payload_html"
  let ?e1 = "env_answering payload_older"
  let ?s2 = "st_queued update_html"
  let ?s1 = "st_queued update_older"
  have si: "sanitizeString ?i = ?i" by (simp add: sanitize_defs)
  have st: "sanitizeString (p_title payload_html) = ''Plan''"
           "sanitizeString (p_content payload_html) = ''ptwo/p''"
           "trim ''Plan'' = ''Plan''"
    by (simp_all add: sanitize_defs payload_html_def)
  have f: "find (\<lambda>n. s__id n = Some (sanitizeString ?i)) [server_note_html] = Some server_note_html"
    unfolding si by (simp add: server_note_html_def)
  have o: "s_userId server_note_html = Some (reqUser srv_ok)"
    and m: "s_lastModified server_note_html = Some 20"
    and nf: "\<not> findThrows srv_ok 0" and ns: "\<not> saveThrows srv_ok 0"
    by (simp_all add: server_note_html_def srv_ok_def)
  have ne: "sanitizeString ?i \<noteq> []" unfolding si by simp
  have d2: "p_id payload_html = Some ?i" "p_lastModified payload_html = Some 20"
    and d1: "p_id payload_older = Some ?i" "p_lastModified payload_older = Some 10"
    by (simp_all add: html_defs)
  have l2: "findByServerId (sanitizeString ?i) (db_notes ?s2) = Some local_note_html"
    and l1: "findByServerId (sanitizeString ?i) (db_notes ?s1) = Some local_note_html"
    unfolding si by (simp_all add: findByServerId_def st_queued_def local_note_html_def)
  have e2: "\<forall>s. settle ?e2 s = Resolves" and e1: "\<forall>s. settle ?e1 s = Resolves"
    by (simp_all add: env_answering_def env_ok_def)
  have pd2: "postData ?e2 = snd (app_post_sync srv_ok [payload_html] [server_note_html])"
    and pd1: "postData ?e1 = snd (app_post_sync srv_ok [payload_older] [server_note_html])"
    by (simp_all add: env_answering_def)
  have q2: "db_syncQueue ?s2 = [update_html]" "data update_html = payload_html"
           "action update_html \<noteq> ''delete''"
    and q1: "db_syncQueue ?s1 = [update_older]" "data update_older = payload_older"
            "action update_older \<noteq> ''delete''"
    by (simp_all add: st_queued_def update_html_def update_older_def)
  have on2: "isOnline ?s2" and idle2: "\<not> syncInProgress ?s2"
    and on1: "isOnline ?s1" and idle1: "\<not> syncInProgress ?s1"
    by (simp_all add: st_queued_def st_idle_def)
  note tie = last_write_wins[OF f o m d2(1) ne d2(2) nf ns l2 e2 pd2 q2 on2 idle2]
  note old = last_write_wins[OF f o m d1(1) ne d1(2) nf ns l1 e1 pd1 q1 on1 idle1]
  have a: "db_notes (snd (push_notes ?e2 [payload_html] ?s2)) =
      notes_update (n_id local_note_html)
        (\<lambda>r. r\<lparr>serverId := Some (sanitizeString ?i),
                title := setTitle srv_ok (sanitizeString (p_title payload_html)),
                content := sanitizeString (p_content payload_html),
                synced := True, lastModified := Some 20\<rparr>) (db_notes ?s2)"
    using tie by simp
  have b: "db_notes (snd (push_notes ?e1 [payload_older] ?s1)) =
      notes_update (n_id local_note_html)
        (\<lambda>r. r\<lparr>title := s_title server_note_html, content := s_content server_note_html,
                lastModified := Some 20, synced := True\<rparr>) (db_notes ?s1)"
    using old by simp
  have c: "fst (app_post_sync srv_ok [payload_older] [server_note_html]) = [server_note_html]"
    using old by simp
  have q: "db_syncQueue (snd (triggerSync ?e1 ?s1)) = []" using old by simp
  have tm: "timers (snd (triggerSync ?e1 ?s1)) = []"
    using old by (simp add: st_queued_def st_idle_def)
  have a': "db_notes (snd (push_notes ?e2 [payload_html] ?s2)) =
     [local_note_html\<lparr>title := ''Plan'', content := ''ptwo/p'', synced := True, lastModified := Some 20\<rparr>]"
    unfolding a si st by (simp add: notes_update_def st_queued_def local_note_html_def srv_ok_def st)
  have b': "db_notes (snd (push_notes ?e1 [payload_older] ?s1)) =
     [local_note_html\<lparr>title := ''theirs'', content := ''server text'', synced := True,
        lastModified := Some 20\<rparr>]"
    unfolding b by (simp add: notes_update_def st_queued_def local_note_html_def server_note_html_def)
  from a' b' c q tm show ?thesis by - (intro conjI; assumption)
qed

text \<open>
  C5, as stated, fails for two of the three steps it names: a rejected \<^verbatim>\<open>DELETE\<close> and a
  rejected pull are caught where they occur (lines 110 and 260). The cycle goes on, returns
  \<^verbatim>\<open>true\<close>, leaves the delay at its floor and schedules no retry.
\<close>

theorem swallowed_failures_counterexample:
  "fst (triggerSync (env_reject (ApiDelete 0)) (st_idle\<lparr>db_syncQueue := [delete_a]\<rparr>)) = Inr True \<and>
   syncRetryDelay (snd (triggerSync (env_reject (ApiDelete 0)) (st_idle\<lparr>db_syncQueue := [delete_a]\<rparr>))) = 1000 \<and>
   timers (snd (triggerSync (env_reject (ApiDelete 0)) (st_idle\<lparr>db_syncQueue := [delete_a]\<rparr>))) = [] \<and>
   fst (triggerSync (env_reject ApiGet) (st_idle\<lparr>db_syncQueue := [update_a1]\<rparr>)) = Inr True \<and>
   syncRetryDelay (snd (triggerSync (env_reject ApiGet) (st_idle\<lparr>db_syncQueue := [update_a1]\<rparr>))) = 1000 \<and>
   timers (snd (triggerSync (env_reject ApiGet) (st_idle\<lparr>db_syncQueue := [update_a1]\<rparr>))) = []"
  by (simp add: model_defs sample_defs)

text \<open>
  C5, amended. A cycle that returns \<^verbatim>\<open>false\<close> has doubled the delay, capped at
  \<open>MAX_RETRY_DELAY\<close>, has incremented the retry count of every queue entry, has scheduled a
  retry after the new delay and has cleared the flag. A cycle whose batched push is rejected
  returns \<^verbatim>\<open>false\<close> (the queue read, the deletes and the writes of the \<^verbatim>\<open>catch\<close> block
  having settled). A cycle that returns \<^verbatim>\<open>true\<close> schedules nothing and does not raise the
  delay.
\<close>

theorem push_failure_backs_off:
  assumes on: "isOnline st" and idle: "\<not> syncInProgress st"
      and d: "distinct (map e_id (db_syncQueue st))"
      and t: "triggerSync e st = (r, st')"
  shows "(r = Inr False \<longrightarrow>
           syncRetryDelay st' = min (syncRetryDelay st * 2) MAX_RETRY_DELAY \<and>
           timers st' = timers st @ [syncRetryDelay st'] \<and>
           db_syncQueue st' = map bump (db_syncQueue st) \<and> \<not> syncInProgress st') \<and>
         (settle e QueueRead = Resolves \<and> (\<forall>i. settle e (ApiDelete i) \<noteq> Pending) \<and>
          notesToSync (collapse (sort_key timestamp (db_syncQueue st))) \<noteq> [] \<and>
          settle e ApiPost = Rejects \<and>
          settle e RetryRead = Resolves \<and> (\<forall>i. settle e (RetryWrite i) = Resolves) \<longrightarrow>
          r = Inr False) \<and>
         (r = Inr True \<longrightarrow>
           timers st' = timers st \<and>
           syncRetryDelay st' = (if db_syncQueue st = [] then syncRetryDelay st else 1000))"
proof -
  let ?st0 = "st\<lparr>syncInProgress := True, inFlight := inFlight st + 1\<rparr>"
  have cy: "cycle e ?st0 = (r, st')" using triggerSync_started[OF on idle, of e] t by simp
  note o = triggerSync_outcome[OF on idle t d]
  have fl: "(\<forall>s. r \<noteq> Inl (Parked s)) \<longrightarrow> \<not> syncInProgress st'" using cycle_flag[OF cy] by blast
  have a: "r = Inr False \<longrightarrow>
           syncRetryDelay st' = min (syncRetryDelay st * 2) MAX_RETRY_DELAY \<and>
           timers st' = timers st @ [syncRetryDelay st'] \<and>
           db_syncQueue st' = map bump (db_syncQueue st) \<and> \<not> syncInProgress st'"
    using o fl by simp
  have b: "settle e QueueRead = Resolves \<and> (\<forall>i. settle e (ApiDelete i) \<noteq> Pending) \<and>
          notesToSync (collapse (sort_key timestamp (db_syncQueue st))) \<noteq> [] \<and>
          settle e ApiPost = Rejects \<and>
          settle e RetryRead = Resolves \<and> (\<forall>i. settle e (RetryWrite i) = Resolves) \<longrightarrow>
          r = Inr False"
  proof
    assume h: "settle e QueueRead = Resolves \<and> (\<forall>i. settle e (ApiDelete i) \<noteq> Pending) \<and>
          notesToSync (collapse (sort_key timestamp (db_syncQueue st))) \<noteq> [] \<and>
          settle e ApiPost = Rejects \<and>
          settle e RetryRead = Resolves \<and> (\<forall>i. settle e (RetryWrite i) = Resolves)"
    have h1: "settle e QueueRead = Resolves" and h2: "\<forall>i. settle e (ApiDelete i) \<noteq> Pending"
      and h3: "notesToSync (collapse (sort_key timestamp (db_syncQueue ?st0))) \<noteq> []"
      and h4: "settle e ApiPost = Rejects" and h5: "settle e RetryRead = Resolves"
      and h6: "\<forall>i. settle e (RetryWrite i) = Resolves"
      using h by simp_all
    have "fst (cycle e ?st0) = Inr False"
      by (rule cycle_caught[OF push_rejected[OF h1 h2 h3 h4] catch_block_settled[OF h5 h6]])
    then show "r = Inr False" using cy by simp
  qed
  have c: "r = Inr True \<longrightarrow>
           timers st' = timers st \<and>
           syncRetryDelay st' = (if db_syncQueue st = [] then syncRetryDelay st else 1000)"
    using o by simp
  from a b c show ?thesis by - (intro conjI; assumption)
qed

theorem push_failure_backs_off_witness:
  "fst (triggerSync (env_reject ApiPost) (st_idle\<lparr>db_syncQueue := [update_a1]\<rparr>)) = Inr False \<and>
   syncRetryDelay (snd (triggerSync (env_reject ApiPost) (st_idle\<lparr>db_syncQueue := [update_a1]\<rparr>))) = 2000 \<and>
   timers (snd (triggerSync (env_reject ApiPost) (st_idle\<lparr>db_syncQueue := [update_a1]\<rparr>))) = [2000] \<and>
   db_syncQueue (snd (triggerSync (env_reject ApiPost) (st_idle\<lparr>db_syncQueue := [update_a1]\<rparr>))) =
     [update_a1\<lparr>retries := 1\<rparr>]"
proof -
  let ?st = "st_idle\<lparr>db_syncQueue := [update_a1]\<rparr>"
  let ?e = "env_reject ApiPost"
  have on: "isOnline ?st" and idle: "\<not> syncInProgress ?st"
    and d: "distinct (map e_id (db_syncQueue ?st))" by (simp_all add: st_idle_def)
  have t: "triggerSync ?e ?st = (fst (triggerSync ?e ?st), snd (triggerSync ?e ?st))" by simp
  have h: "settle ?e QueueRead = Resolves \<and> (\<forall>i. settle ?e (ApiDelete i) \<noteq> Pending) \<and>
          notesToSync (collapse (sort_key timestamp (db_syncQueue ?st))) \<noteq> [] \<and>
          settle ?e ApiPost = Rejects \<and>
          settle ?e RetryRead = Resolves \<and> (\<forall>i. settle ?e (RetryWrite i) = Resolves)"
    by (simp add: model_defs sample_defs)
  note th = push_failure_backs_off[OF on idle d t]
  have r: "fst (triggerSync ?e ?st) = Inr False" using th h by blast
  have v: "syncRetryDelay ?st = 1000" "timers ?st = []" "map bump (db_syncQueue ?st) = [update_a1\<lparr>retries := 1\<rparr>]"
    by (simp_all add: st_idle_def bump_def update_a1_def)
  have s: "syncRetryDelay (snd (triggerSync ?e ?st)) = min (syncRetryDelay ?st * 2) MAX_RETRY_DELAY \<and>
           timers (snd (triggerSync ?e ?st)) = timers ?st @ [syncRetryDelay (snd (triggerSync ?e ?st))] \<and>
           db_syncQueue (snd (triggerSync ?e ?st)) = map bump (db_syncQueue ?st) \<and>
           \<not> syncInProgress (snd (triggerSync ?e ?st))"
    using th r by blast
  then have s1: "syncRetryDelay (snd (triggerSync ?e ?st)) = 2000"
    unfolding v by (simp add: MAX_RETRY_DELAY_def)
  have s2: "timers (snd (triggerSync ?e ?st)) = [2000]" using s s1 unfolding v by simp
  have s3: "db_syncQueue (snd (triggerSync ?e ?st)) = [update_a1\<lparr>retries := 1\<rparr>]" using s unfolding v by simp
  from r s1 s2 s3 show ?thesis by - (intro conjI; assumption)
qed

text \<open>
  C6, as stated, fails: a delete entry whose \<^verbatim>\<open>DELETE\<close> request is rejected is removed from
  the queue by the same cycle, with no retry.
\<close>

theorem failed_delete_dropped_counterexample:
  "fst (triggerSync (env_reject (ApiDelete 0)) (st_idle\<lparr>db_syncQueue := [delete_a]\<rparr>)) = Inr True \<and>
   sent (snd (triggerSync (env_reject (ApiDelete 0)) (st_idle\<lparr>db_syncQueue := [delete_a]\<rparr>))) =
     [ReqDelete ''a'', ReqGet 0] \<and>
   db_syncQueue (snd (triggerSync (env_reject (ApiDelete 0)) (st_idle\<lparr>db_syncQueue := [delete_a]\<rparr>))) = []"
  by (simp add: model_defs sample_defs)

text \<open>
  C6, amended. A cycle that returns \<^verbatim>\<open>false\<close> leaves every entry in the queue, with its
  retry count incremented; a cycle that throws removes none. A cycle that returns \<^verbatim>\<open>true\<close>
  removes every create and update entry, every delete entry that carries a payload id, and
  every other delete entry of a note that has a create or update queued, whatever the
  outcome of the \<^verbatim>\<open>DELETE\<close> requests was.
\<close>

theorem entries_leave_only_on_completion:
  assumes on: "isOnline st" and idle: "\<not> syncInProgress st"
      and d: "distinct (map e_id (db_syncQueue st))"
      and t: "triggerSync e st = (r, st')"
  shows "(r = Inr False \<longrightarrow> db_syncQueue st' = map bump (db_syncQueue st)) \<and>
         (r = Inl Thrown \<longrightarrow> map e_id (db_syncQueue st') = map e_id (db_syncQueue st)) \<and>
         (r = Inr True \<longrightarrow>
            db_syncQueue st' = filter (stays (sort_key timestamp (db_syncQueue st))) (db_syncQueue st))"
  using triggerSync_outcome[OF on idle t d] by simp

theorem entries_leave_only_on_completion_witness:
  "db_syncQueue (snd (triggerSync (env_reject ApiPost) (st_idle\<lparr>db_syncQueue := [update_a1, delete_a]\<rparr>))) =
     map bump [update_a1, delete_a] \<and>
   db_syncQueue (snd (triggerSync env_ok (st_idle\<lparr>db_syncQueue := [update_a1, delete_a]\<rparr>))) = []"
proof -
  let ?st = "st_idle\<lparr>db_syncQueue := [update_a1, delete_a]\<rparr>"
  have on: "isOnline ?st" and idle: "\<not> syncInProgress ?st"
    and d: "distinct (map e_id (db_syncQueue ?st))"
    by (simp_all add: st_idle_def update_a1_def delete_a_def)
  have t1: "triggerSync (env_reject ApiPost) ?st =
      (fst (triggerSync (env_reject ApiPost) ?st), snd (triggerSync (env_reject ApiPost) ?st))" by simp
  have t2: "triggerSync env_ok ?st = (fst (triggerSync env_ok ?st), snd (triggerSync env_ok ?st))" by simp
  have r1: "fst (triggerSync (env_reject ApiPost) ?st) = Inr False" by (simp add: model_defs sample_defs)
  have r2: "fst (triggerSync env_ok ?st) = Inr True" by (simp add: model_defs sample_defs)
  have f: "filter (stays (sort_key timestamp (db_syncQueue ?st))) (db_syncQueue ?st) = []"
    by (simp add: stays_def model_defs sample_defs)
  have a: "db_syncQueue (snd (triggerSync (env_reject ApiPost) ?st)) = map bump (db_syncQueue ?st)"
    using entries_leave_only_on_completion[OF on idle d t1] r1 by blast
  have b: "db_syncQueue (snd (triggerSync env_ok ?st)) = []"
    using entries_leave_only_on_completion[OF on idle d t2] r2 f by simp
  from a b show ?thesis by simp
qed

text \<open>
  C7. The delay doubles, capped, in every cycle that fails, and line 191 resets it when a
  cycle with a non-empty queue succeeds. The early return of
  lines 72 to 76 leaves it as it is: from the initial state, a cycle whose queue read is
  rejected raises the delay to 2000 and returns \<^verbatim>\<open>false\<close>; the next cycle finds the queue
  empty, returns \<^verbatim>\<open>true\<close>, and the delay is still 2000.
\<close>

theorem backoff_kept_after_empty_cycle:
  "fst (triggerSync (env_reject QueueRead) st_idle) = Inr False \<and>
   syncRetryDelay (snd (triggerSync (env_reject QueueRead) st_idle)) = 2000 \<and>
   db_syncQueue (snd (triggerSync (env_reject QueueRead) st_idle)) = [] \<and>
   fst (triggerSync env_ok (snd (triggerSync (env_reject QueueRead) st_idle))) = Inr True \<and>
   syncRetryDelay (snd (triggerSync env_ok (snd (triggerSync (env_reject QueueRead) st_idle)))) = 2000"
  by (simp add: model_defs sample_defs)

text \<open>
  C8, as stated, fails: when the \<^verbatim>\<open>add\<close> is rejected, \<^verbatim>\<open>addToSyncQueue\<close> completes as it
  does after a successful \<^verbatim>\<open>add\<close>, and the state is unchanged.
\<close>

theorem enqueue_failure_is_silent_counterexample:
  "addToSyncQueue (env_reject QueueAdd) None ''create'' payload_a1 st_idle = (Inr (), st_idle) \<and>
   fst (addToSyncQueue env_ok None ''create'' payload_a1 st_idle) = Inr ()"
  by (simp add: model_defs sample_defs)

text \<open>
  C8, amended. \<^verbatim>\<open>addToSyncQueue\<close> never throws. When the \<^verbatim>\<open>add\<close> is rejected it returns
  normally and leaves the state as it was: nothing is queued and no sync is triggered. When
  the \<^verbatim>\<open>add\<close> resolves it returns normally as well, with the new entry, stamped with the
  current time and a retry count of zero, at the end of the queue.
\<close>

theorem enqueue_failure_is_caught:
  "fst (addToSyncQueue e k a d st) \<noteq> Inl Thrown \<and>
   (settle e QueueAdd = Rejects \<longrightarrow> addToSyncQueue e k a d st = (Inr (), st)) \<and>
   (settle e QueueAdd = Resolves \<longrightarrow>
      fst (addToSyncQueue e k a d st) = Inr () \<and>
      db_syncQueue (snd (addToSyncQueue e k a d st)) =
        db_syncQueue st @ [\<lparr>e_id = queueKey st, noteId = k, action = a, data = d,
                            timestamp = now e, retries = 0\<rparr>])"
  by (cases "settle e QueueAdd") (simp_all add: addToSyncQueue_def wait_def queue_add_def invoke_def Let_def)

theorem enqueue_failure_is_caught_witness:
  "addToSyncQueue (env_reject QueueAdd) (Some (ServerKey ''a'')) ''update'' payload_a2 st_idle = (Inr (), st_idle)"
proof -
  have h: "settle (env_reject QueueAdd) QueueAdd = Rejects" by (simp add: sample_defs)
  from enqueue_failure_is_caught[of "env_reject QueueAdd" "Some (ServerKey ''a'')" "''update''" payload_a2 st_idle] h
  show ?thesis by blast
qed

text \<open>
  C9. In a notes table whose keys lie below its key generator, reconciling one server record
  a second time changes nothing: after the first reconciliation a local record carries the
  record's server identity, the second one finds it by that identity and rewrites the same
  fields, and no record is added. This holds for the records pulled by
  \<^verbatim>\<open>syncFromServer\<close> and for those returned by the batched push.
\<close>

theorem reconcile_idempotent:
  assumes wf: "\<forall>r\<in>set (db_notes st). n_id r < notesKey st"
  shows "(pull_notes e i [n] st = (Inr u, st1) \<and> pull_notes e' j [n] st1 = (Inr u', st2) \<longrightarrow>
            st2 = st1 \<and> (\<exists>k. noteIdOf n = Some k \<and> findByServerId k (db_notes st1) \<noteq> None)) \<and>
         (reconcile_pushed e i [n] st = (Inr v, st3) \<and> reconcile_pushed e' j [n] st3 = (Inr v', st4) \<longrightarrow>
            st4 = st3 \<and> (\<exists>k. noteIdOf n = Some k \<and> findByServerId k (db_notes st3) \<noteq> None))"
proof (intro conjI impI)
  assume a: "pull_notes e i [n] st = (Inr u, st1) \<and> pull_notes e' j [n] st1 = (Inr u', st2)"
  then obtain k where k: "noteIdOf n = Some k" and s1: "st1 = write_pulled k n st"
    using pull_notes_single[of e i n st u st1] by blast
  obtain k' where "noteIdOf n = Some k'" and s2: "st2 = write_pulled k' n st1"
    using a pull_notes_single[of e' j n st1 u' st2] by blast
  then have s2': "st2 = write_pulled k n st1" using k by simp
  note tw = write_pulled_twice[OF wf, of k n]
  show "st2 = st1" using s2' s1 tw by simp
  show "\<exists>k. noteIdOf n = Some k \<and> findByServerId k (db_notes st1) \<noteq> None" using k s1 tw by simp
next
  assume a: "reconcile_pushed e i [n] st = (Inr v, st3) \<and> reconcile_pushed e' j [n] st3 = (Inr v', st4)"
  let ?found = "\<lambda>k st. case findByServerId k (db_notes st) of Some l \<Rightarrow> Some l
                        | None \<Rightarrow> findByTitleUnsynced (s_title n) (db_notes st)"
  obtain k where k: "noteIdOf n = Some k" and s1: "st3 = write_pushed n (?found k st) st"
    using a reconcile_pushed_single[of e i n st v st3] by blast
  obtain k' where "noteIdOf n = Some k'" and s2: "st4 = write_pushed n (?found k' st3) st3"
    using a reconcile_pushed_single[of e' j n st3 v' st4] by blast
  then have s2': "st4 = write_pushed n (?found k st3) st3" using k by simp
  from write_pushed_twice[OF wf k refl] obtain l' where
    f: "findByServerId k (db_notes (write_pushed n (?found k st) st)) = Some l'" and
    w: "write_pushed n (Some l') (write_pushed n (?found k st) st) = write_pushed n (?found k st) st"
    by blast
  have "?found k st3 = Some l'" using f s1 by simp
  then show "st4 = st3" using s2' w s1 by simp
  show "\<exists>k. noteIdOf n = Some k \<and> findByServerId k (db_notes st3) \<noteq> None" using k f s1 by simp
qed

theorem reconcile_idempotent_witness:
  "snd (pull_notes env_ok 0 [server_note_a] (snd (pull_notes env_ok 0 [server_note_a] st_idle))) =
     snd (pull_notes env_ok 0 [server_note_a] st_idle) \<and>
   length (db_notes (snd (pull_notes env_ok 0 [server_note_a] st_idle))) = 1 \<and>
   snd (reconcile_pushed env_ok 0 [server_note_a] (snd (reconcile_pushed env_ok 0 [server_note_a] st_idle))) =
     snd (reconcile_pushed env_ok 0 [server_note_a] st_idle)"
proof -
  let ?p1 = "snd (pull_notes env_ok 0 [server_note_a] st_idle)"
  let ?p2 = "snd (pull_notes env_ok 0 [server_note_a] ?p1)"
  let ?r1 = "snd (reconcile_pushed env_ok 0 [server_note_a] st_idle)"
  let ?r2 = "snd (reconcile_pushed env_ok 0 [server_note_a] ?r1)"
  have wf: "\<forall>r\<in>set (db_notes st_idle). n_id r < notesKey st_idle" by (simp add: st_idle_def)
  have a1: "pull_notes env_ok 0 [server_note_a] st_idle = (Inr (), ?p1)"
    by (simp add: wait_def noteIdOf_def truthy_def sample_defs)
  have a2: "pull_notes env_ok 0 [server_note_a] ?p1 = (Inr (), ?p2)"
    by (simp add: wait_def noteIdOf_def truthy_def sample_defs)
  have b1: "reconcile_pushed env_ok 0 [server_note_a] st_idle = (Inr (), ?r1)"
    by (simp add: lookup_pushed_def wait_def noteIdOf_def truthy_def sample_defs split: option.split)
  have b2: "reconcile_pushed env_ok 0 [server_note_a] ?r1 = (Inr (), ?r2)"
    by (simp add: lookup_pushed_def wait_def noteIdOf_def truthy_def sample_defs split: option.split)
  note th = reconcile_idempotent[OF wf, of env_ok 0 server_note_a "()" ?p1 env_ok 0 "()" ?p2 "()" ?r1 "()" ?r2]
  have x: "?p2 = ?p1" using th a1 a2 by blast
  have y: "?r2 = ?r1" using th b1 b2 by blast
  have z: "length (db_notes ?p1) = 1"
    by (simp add: wait_def noteIdOf_def truthy_def write_pulled_def findByServerId_def notes_add_def sample_defs)
  from x z y show ?thesis by - (intro conjI; assumption)
qed

text \<open>
  C10. A call of \<^verbatim>\<open>triggerSync\<close> made while the coordinator is offline, or while a cycle is
  in flight, returns \<^verbatim>\<open>false\<close> and leaves the whole state as it was: the notes, the
  queue, the watermark, the backoff delay, and the record of requests (nothing is awaited,
  nothing is sent). The result is the same whatever the tables hold, so none of them is read.
\<close>

theorem triggerSync_guard_noop:
  assumes "\<not> isOnline st \<or> syncInProgress st"
  shows "triggerSync e st = (Inr False, st)"
  using assms by (simp add: triggerSync_def invoke_def)

theorem triggerSync_guard_noop_witness:
  "triggerSync env_ok (st_idle\<lparr>isOnline := False\<rparr>) = (Inr False, st_idle\<lparr>isOnline := False\<rparr>) \<and>
   triggerSync env_ok (st_idle\<lparr>syncInProgress := True\<rparr>) = (Inr False, st_idle\<lparr>syncInProgress := True\<rparr>)"
proof -
  have h1: "\<not> isOnline (st_idle\<lparr>isOnline := False\<rparr>) \<or> syncInProgress (st_idle\<lparr>isOnline := False\<rparr>)"
    by (simp add: st_idle_def)
  have h2: "\<not> isOnline (st_idle\<lparr>syncInProgress := True\<rparr>) \<or> syncInProgress (st_idle\<lparr>syncInProgress := True\<rparr>)"
    by (simp add: st_idle_def)
  show ?thesis
    using triggerSync_guard_noop[OF h1, of env_ok] triggerSync_guard_noop[OF h2, of env_ok]
    by (rule conjI)
qed

end
